theory Spec2Isabelle
  imports Main
begin

section \<open>JavaScript values\<close>

text \<open>
  A JavaScript string is a sequence of UTF-16 code units; \<open>length\<close> counts code units,
  as \<^verbatim>\<open>String.prototype.length\<close> does. The literals of the source are written
  \<open>js ''...''\<close>.
\<close>

type_synonym jsstring = "nat list"

definition js :: "string \<Rightarrow> jsstring" where
  "js s = map of_char s"

text \<open>
  The values a form can hold and an expression can return. Numbers are represented by
  integers: the code under study never inspects a number beyond its type. \<open>JObj\<close> lists
  the own enumerable properties of a plain object, one entry per key; \<open>JDate\<close> is a
  \<^verbatim>\<open>Date\<close> instance (it has no own enumerable property); \<open>JFun\<close> is a function,
  named for identification only. Arrays are dense.
\<close>

datatype jsval =
    JUndefined
  | JNull
  | JBool bool
  | JNum int
  | JStr jsstring
  | JArr "jsval list"
  | JObj "(jsstring \<times> jsval) list"
  | JDate int
  | JFun jsstring

datatype jstype = TUndefined | TObject | TBoolean | TNumber | TString | TFunction

fun js_typeof :: "jsval \<Rightarrow> jstype" where
  "js_typeof JUndefined = TUndefined"
| "js_typeof JNull = TObject"
| "js_typeof (JBool b) = TBoolean"
| "js_typeof (JNum n) = TNumber"
| "js_typeof (JStr s) = TString"
| "js_typeof (JArr xs) = TObject"
| "js_typeof (JObj kvs) = TObject"
| "js_typeof (JDate t) = TObject"
| "js_typeof (JFun f) = TFunction"

fun isArray :: "jsval \<Rightarrow> bool" where
  "isArray (JArr xs) = True"
| "isArray v = False"

text \<open>
  \<^verbatim>\<open>Object.keys(v).length\<close> for a value that is neither null nor undefined: the
  indices of an array or string, the own enumerable keys of an object, nothing for a
  Date, a function, a number or a boolean.
\<close>

fun object_keys_length :: "jsval \<Rightarrow> nat" where
  "object_keys_length (JArr xs) = length xs"
| "object_keys_length (JObj kvs) = length kvs"
| "object_keys_length (JStr s) = length s"
| "object_keys_length v = 0"

text \<open>
  White space as \<^verbatim>\<open>String.prototype.trim\<close> and the regular expression class
  \<^verbatim>\<open>\s\<close> understand it: the WhiteSpace and LineTerminator code points of ECMAScript.
\<close>

definition is_whitespace :: "nat \<Rightarrow> bool" where
  "is_whitespace c =
     (c = 9 \<or> c = 10 \<or> c = 11 \<or> c = 12 \<or> c = 13 \<or> c = 32 \<or> c = 160 \<or> c = 5760
      \<or> (8192 \<le> c \<and> c \<le> 8202) \<or> c = 8232 \<or> c = 8233 \<or> c = 8239 \<or> c = 8287
      \<or> c = 12288 \<or> c = 65279)"

definition js_trim :: "jsstring \<Rightarrow> jsstring" where
  "js_trim s = rev (dropWhile is_whitespace (rev (dropWhile is_whitespace s)))"

text \<open>
  A values object \<^verbatim>\<open>Record<string, any>\<close> is a plain object, as the callers build
  it with object literals and spread and as \<^verbatim>\<open>{ ...formValues }\<close> makes it: the map
  lists its own properties, and its prototype is \<^verbatim>\<open>Object.prototype\<close>.
\<close>

type_synonym value_map = "jsstring \<rightharpoonup> jsval"

text \<open>
  The properties that every plain object inherits from \<^verbatim>\<open>Object.prototype\<close>, with
  what a read of each gives: eleven functions, and the accessor \<^verbatim>\<open>__proto__\<close>, whose
  getter returns the prototype, the object \<^verbatim>\<open>Object.prototype\<close> itself, which has no
  own enumerable property. \<^verbatim>\<open>Object.prototype\<close> is taken as the language defines it.
\<close>

definition object_prototype :: "(jsstring \<times> jsval) list" where
  "object_prototype =
     [(js ''constructor'', JFun (js ''Object'')),
      (js ''__defineGetter__'', JFun (js ''Object.prototype.__defineGetter__'')),
      (js ''__defineSetter__'', JFun (js ''Object.prototype.__defineSetter__'')),
      (js ''hasOwnProperty'', JFun (js ''Object.prototype.hasOwnProperty'')),
      (js ''__lookupGetter__'', JFun (js ''Object.prototype.__lookupGetter__'')),
      (js ''__lookupSetter__'', JFun (js ''Object.prototype.__lookupSetter__'')),
      (js ''isPrototypeOf'', JFun (js ''Object.prototype.isPrototypeOf'')),
      (js ''propertyIsEnumerable'', JFun (js ''Object.prototype.propertyIsEnumerable'')),
      (js ''toString'', JFun (js ''Object.prototype.toString'')),
      (js ''valueOf'', JFun (js ''Object.prototype.valueOf'')),
      (js ''__proto__'', JObj []),
      (js ''toLocaleString'', JFun (js ''Object.prototype.toLocaleString''))]"

definition inherited :: "jsstring \<Rightarrow> jsval option" where
  "inherited k = map_of object_prototype k"

text \<open>
  \<^verbatim>\<open>k in obj\<close> and \<^verbatim>\<open>obj[k]\<close>: an own property is found first, then an inherited
  one; a read that finds neither gives \<^verbatim>\<open>undefined\<close>.
\<close>

definition js_in :: "jsstring \<Rightarrow> value_map \<Rightarrow> bool" where
  "js_in k obj = (obj k \<noteq> None \<or> inherited k \<noteq> None)"

definition js_get :: "value_map \<Rightarrow> jsstring \<Rightarrow> jsval" where
  "js_get obj k =
     (case obj k of
        Some v \<Rightarrow> v
      | None \<Rightarrow> (case inherited k of Some v \<Rightarrow> v | None \<Rightarrow> JUndefined))"

text \<open>
  \<^verbatim>\<open>obj[k] = v\<close> creates or overwrites the own property \<open>k\<close>, with one exception:
  on an object without an own property \<^verbatim>\<open>__proto__\<close> the assignment calls the inherited
  setter, which creates no own property. (The setter replaces the prototype of the
  object when \<open>v\<close> is an object or null. The map does not record that: what is proved
  below about reads that follow writes is stated for schemas in which no derived field
  has the id \<^verbatim>\<open>__proto__\<close>.)
\<close>

definition js_set :: "value_map \<Rightarrow> jsstring \<Rightarrow> jsval \<Rightarrow> value_map" where
  "js_set obj k v = (if k = js ''__proto__'' \<and> obj k = None then obj else obj(k \<mapsto> v))"

text \<open>
  Conversions of the host engine that the validators call and this repository does not
  define: \<^verbatim>\<open>String(v)\<close> and the numeric conversion applied by \<^verbatim>\<open><\<close> and
  \<^verbatim>\<open>>\<close> (\<open>None\<close> is NaN).
\<close>

record js_runtime =
  String_of :: "jsval \<Rightarrow> jsstring"
  Number_of :: "jsval \<Rightarrow> int option"

section \<open>The data model (types/form.ts)\<close>

datatype rule_type = NotEmpty | MinLength | MaxLength | Email | CustomPassword
  | OtherRuleType jsstring

record validation_rule =
  rule_type :: rule_type
  rule_value :: "jsval option"
  rule_message :: jsstring

record derived_field_config =
  parentFields :: "jsstring list"
  computationLogic :: jsval

datatype field_type = Text | Number | Textarea | Select | Radio | Checkbox | Date

text \<open>
  \<^verbatim>\<open>FormField\<close> and \<^verbatim>\<open>FormSchema\<close>. The type parameter is what a field holds as
  its \<open>validation\<close>: the list of rules itself where the identity of the array plays no
  part, and a reference to the array where two fields may hold the same one.
\<close>

record 'rules field_object =
  field_id :: jsstring
  field_type :: field_type
  label :: jsstring
  required :: bool
  defaultValue :: "jsval option"
  validation :: "'rules option"
  options :: "jsstring list option"
  derivedFrom :: "derived_field_config option"

record 'rules schema_object =
  schema_id :: jsstring
  schema_name :: jsstring
  createdAt :: jsval
  schema_fields :: "'rules field_object list"

type_synonym form_field = "validation_rule list field_object"

type_synonym form_schema = "validation_rule list schema_object"

record validation_result =
  isValid :: bool
  errors :: "jsstring list"

record form_validation_result =
  formIsValid :: bool
  fieldErrors :: "jsstring \<rightharpoonup> jsstring list"

section \<open>ValidationEngine\<close>

fun validateNotEmpty :: "jsval \<Rightarrow> jsstring \<Rightarrow> jsstring option" where
  "validateNotEmpty v message =
     (if v = JNull \<or> v = JUndefined then Some message
      else if js_typeof v = TString \<and> (case v of JStr s \<Rightarrow> js_trim s = [] | _ \<Rightarrow> False)
        then Some message
      else if isArray v \<and> (case v of JArr xs \<Rightarrow> length xs = 0 | _ \<Rightarrow> False)
        then Some message
      else if js_typeof v = TObject \<and> object_keys_length v = 0 then Some message
      else None)"

text \<open>
  \<^verbatim>\<open>stringValue.length < bound\<close> and \<^verbatim>\<open>stringValue.length > bound\<close>, where the
  bound is \<^verbatim>\<open>rule.value\<close> (undefined when the rule has none). A comparison with NaN
  is false.
\<close>

definition bound_of :: "js_runtime \<Rightarrow> jsval option \<Rightarrow> int option" where
  "bound_of rt v =
     (case v of None \<Rightarrow> None
      | Some (JNum n) \<Rightarrow> Some n
      | Some w \<Rightarrow> Number_of rt w)"

fun validateMinLength :: "js_runtime \<Rightarrow> jsval \<Rightarrow> jsval option \<Rightarrow> jsstring \<Rightarrow> jsstring option" where
  "validateMinLength rt v minLength message =
     (if v = JNull \<or> v = JUndefined then None
      else let stringValue = String_of rt v in
        (case bound_of rt minLength of
           None \<Rightarrow> None
         | Some n \<Rightarrow> if int (length stringValue) < n then Some message else None))"

fun validateMaxLength :: "js_runtime \<Rightarrow> jsval \<Rightarrow> jsval option \<Rightarrow> jsstring \<Rightarrow> jsstring option" where
  "validateMaxLength rt v maxLength message =
     (if v = JNull \<or> v = JUndefined then None
      else let stringValue = String_of rt v in
        (case bound_of rt maxLength of
           None \<Rightarrow> None
         | Some n \<Rightarrow> if int (length stringValue) > n then Some message else None))"

text \<open>
  The regular expression \<^verbatim>\<open>/^[^\s@]+@[^\s@]+\.[^\s@]+$/\<close>: no white space, exactly one
  \<^verbatim>\<open>@\<close> with something before it, and after it a dot that has something on both sides.
\<close>

definition emailRegex_test :: "jsstring \<Rightarrow> bool" where
  "emailRegex_test s =
     (let local_part = takeWhile (\<lambda>c. c \<noteq> 64) s;
          rest = dropWhile (\<lambda>c. c \<noteq> 64) s
      in \<not> list_ex is_whitespace s \<and> local_part \<noteq> [] \<and> rest \<noteq> [] \<and>
         (let domain = tl rest in
            \<not> list_ex (\<lambda>c. c = 64) domain \<and>
            list_ex (\<lambda>k. domain ! k = 46) [1 ..< length domain - 1]))"

fun validateEmail :: "js_runtime \<Rightarrow> jsval \<Rightarrow> jsstring \<Rightarrow> jsstring option" where
  "validateEmail rt v message =
     (if v = JNull \<or> v = JUndefined \<or> v = JStr [] then None
      else if \<not> emailRegex_test (String_of rt v) then Some message
      else None)"

text \<open>
  The character class of the last password test:
  \<^verbatim>\<open>! @ # $ % ^ & * ( ) _ + - = [ ] { } ; ' : " \ | , . < > / ?\<close>, by code unit.
\<close>

definition is_special_char :: "nat \<Rightarrow> bool" where
  "is_special_char c =
     (c \<in> set [33, 64, 35, 36, 37, 94, 38, 42, 40, 41, 95, 43, 45, 61, 91, 93, 123, 125,
                59, 39, 58, 34, 92, 124, 44, 46, 60, 62, 47, 63])"

fun validateCustomPassword :: "js_runtime \<Rightarrow> jsval \<Rightarrow> jsstring \<Rightarrow> jsstring option" where
  "validateCustomPassword rt v message =
     (if v = JNull \<or> v = JUndefined \<or> v = JStr [] then None
      else let stringValue = String_of rt v in
        if length stringValue < 8 then Some message
        else if \<not> list_ex (\<lambda>c. 65 \<le> c \<and> c \<le> 90) stringValue then Some message
        else if \<not> list_ex (\<lambda>c. 97 \<le> c \<and> c \<le> 122) stringValue then Some message
        else if \<not> list_ex (\<lambda>c. 48 \<le> c \<and> c \<le> 57) stringValue then Some message
        else if \<not> list_ex is_special_char stringValue then Some message
        else None)"

fun validateSingleRule :: "js_runtime \<Rightarrow> jsval \<Rightarrow> validation_rule \<Rightarrow> jsstring option" where
  "validateSingleRule rt v rule =
     (case rule_type rule of
        NotEmpty \<Rightarrow> validateNotEmpty v (rule_message rule)
      | MinLength \<Rightarrow> validateMinLength rt v (rule_value rule) (rule_message rule)
      | MaxLength \<Rightarrow> validateMaxLength rt v (rule_value rule) (rule_message rule)
      | Email \<Rightarrow> validateEmail rt v (rule_message rule)
      | CustomPassword \<Rightarrow> validateCustomPassword rt v (rule_message rule)
      | OtherRuleType t \<Rightarrow> None)"

text \<open>
  The loop of \<^verbatim>\<open>validateField\<close>. \<^verbatim>\<open>if (error)\<close> tests truthiness: a rule whose
  message is the empty string reports nothing.
\<close>

fun validateField_loop ::
  "js_runtime \<Rightarrow> jsval \<Rightarrow> validation_rule list \<Rightarrow> jsstring list \<Rightarrow> jsstring list" where
  "validateField_loop rt v [] errs = errs"
| "validateField_loop rt v (rule # rules) errs =
     (case validateSingleRule rt v rule of
        None \<Rightarrow> validateField_loop rt v rules errs
      | Some e \<Rightarrow>
          if e = [] then validateField_loop rt v rules errs
          else validateField_loop rt v rules (errs @ [e]))"

definition validateField :: "js_runtime \<Rightarrow> jsval \<Rightarrow> validation_rule list \<Rightarrow> validation_result" where
  "validateField rt v rules =
     (let errs = validateField_loop rt v rules []
      in \<lparr>isValid = (length errs = 0), errors = errs\<rparr>)"

text \<open>
  \<^verbatim>\<open>validateForm\<close>. \<^verbatim>\<open>const rules = field.validation || []\<close> binds \<open>rules\<close> to the
  field's own array when the field has one, and to a fresh array otherwise;
  \<^verbatim>\<open>rules.unshift(requiredRule)\<close> then writes to whichever array that is. The model
  threads the schema's fields through the loop and returns them beside the result, so
  that the write to the field's own array is visible.

  \<open>required_step\<close> is the part of the loop body from the binding of \<open>rules\<close> to the
  end of \<^verbatim>\<open>if (field.required)\<close>: it gives the content of \<open>rules\<close> and the field as
  they are afterwards.
\<close>

definition required_step :: "form_field \<Rightarrow> validation_rule list \<times> form_field" where
  "required_step field =
     (let rules = (case validation field of None \<Rightarrow> [] | Some rs \<Rightarrow> rs)
      in if required field
         then (let hasNotEmptyRule = list_ex (\<lambda>rule. rule_type rule = NotEmpty) rules
               in if \<not> hasNotEmptyRule
                  then (let requiredRule =
                              \<lparr>rule_type = NotEmpty, rule_value = None,
                               rule_message = label field @ js '' is required''\<rparr>;
                            unshifted = requiredRule # rules
                        in (unshifted,
                            case validation field of
                              None \<Rightarrow> field
                            | Some rs \<Rightarrow> field\<lparr>validation := Some unshifted\<rparr>))
                  else (rules, field))
         else (rules, field))"

fun validateForm_loop ::
  "js_runtime \<Rightarrow> value_map \<Rightarrow> form_field list \<Rightarrow> form_validation_result
     \<Rightarrow> form_validation_result \<times> form_field list" where
  "validateForm_loop rt vals [] acc = (acc, [])"
| "validateForm_loop rt vals (field # rest) acc =
     (let fieldValue = js_get vals (field_id field);
          (rules, field') = required_step field;
          result = validateField rt fieldValue rules;
          acc' = (if \<not> isValid result
                  then \<lparr>formIsValid = False,
                        fieldErrors = (fieldErrors acc)(field_id field \<mapsto> errors result)\<rparr>
                  else acc);
          (final, rest') = validateForm_loop rt vals rest acc'
      in (final, field' # rest'))"

definition validateForm ::
  "js_runtime \<Rightarrow> value_map \<Rightarrow> form_schema \<Rightarrow> form_validation_result \<times> form_schema" where
  "validateForm rt vals schema =
     (let (result, fields') =
            validateForm_loop rt vals (schema_fields schema)
              \<lparr>formIsValid = True, fieldErrors = Map.empty\<rparr>
      in (result, schema\<lparr>schema_fields := fields'\<rparr>))"

subsection \<open>validateForm on a store of arrays\<close>

text \<open>
  The same function with the identity of the rule arrays made explicit. The store lists
  the arrays, and a field holds as its \<open>validation\<close> a reference into the store (an
  index); two fields may hold the same reference. \<^verbatim>\<open>field.validation || []\<close> is the
  field's reference when it has one and a reference to a newly allocated empty array
  otherwise; \<^verbatim>\<open>rules.unshift(requiredRule)\<close> changes the array behind the reference.
\<close>

type_synonym rule_store = "validation_rule list list"

fun validateForm_store_loop ::
  "js_runtime \<Rightarrow> value_map \<Rightarrow> nat field_object list \<Rightarrow> form_validation_result \<times> rule_store
     \<Rightarrow> form_validation_result \<times> rule_store" where
  "validateForm_store_loop rt vals [] (acc, arrays) = (acc, arrays)"
| "validateForm_store_loop rt vals (field # rest) (acc, arrays) =
     (let fieldValue = js_get vals (field_id field);
          (rules, arrays1) =
             (case validation field of
                Some a \<Rightarrow> (a, arrays)
              | None \<Rightarrow> (length arrays, arrays @ [[]]));
          arrays2 =
             (if required field
              then (let hasNotEmptyRule =
                          list_ex (\<lambda>rule. rule_type rule = NotEmpty) (arrays1 ! rules)
                    in if \<not> hasNotEmptyRule
                       then (let requiredRule =
                                   \<lparr>rule_type = NotEmpty, rule_value = None,
                                    rule_message = label field @ js '' is required''\<rparr>
                             in arrays1[rules := requiredRule # arrays1 ! rules])
                       else arrays1)
              else arrays1);
          result = validateField rt fieldValue (arrays2 ! rules);
          acc' = (if \<not> isValid result
                  then \<lparr>formIsValid = False,
                        fieldErrors = (fieldErrors acc)(field_id field \<mapsto> errors result)\<rparr>
                  else acc)
      in validateForm_store_loop rt vals rest (acc', arrays2))"

definition validateForm_store ::
  "js_runtime \<Rightarrow> value_map \<Rightarrow> nat schema_object \<Rightarrow> rule_store
     \<Rightarrow> form_validation_result \<times> rule_store" where
  "validateForm_store rt vals schema arrays =
     validateForm_store_loop rt vals (schema_fields schema)
       (\<lparr>formIsValid = True, fieldErrors = Map.empty\<rparr>, arrays)"

section \<open>DerivedFieldCalculator\<close>

datatype error_kind = invalid_expression | missing_parent | evaluation_error | circular_dependency

text \<open>An \<^verbatim>\<open>Error\<close> object, with its message.\<close>

datatype js_error = Error jsstring

fun error_text :: "js_error \<Rightarrow> jsstring" where
  "error_text (Error m) = m"

record derived_field_error =
  error_type :: error_kind
  error_message :: jsstring
  error_fieldId :: "jsstring option"
  originalError :: "js_error option"

record compute_result =
  result_value :: jsval
  result_error :: "derived_field_error option"

record update_result =
  updated_values :: value_map
  derived_errors :: "jsstring \<rightharpoonup> derived_field_error"

subsection \<open>The host engine\<close>

text \<open>
  \<^verbatim>\<open>new Function(...contextKeys, functionBody)\<close> and the call of the function it
  builds belong to the host engine. The engine is a parameter of the model: given the
  expression text and the context object, it either
  \<^item> \<open>FunctionThrows m\<close>: raises an error with message \<open>m\<close> that reaches the
    \<^verbatim>\<open>catch\<close> of \<^verbatim>\<open>safeEvaluate\<close> as it is (a syntax error of
    \<^verbatim>\<open>new Function\<close>),
  \<^item> \<open>ExpressionThrows m\<close>: raises, while evaluating the expression, an error with
    message \<open>m\<close>, which the generated function body catches and wraps, or
  \<^item> \<open>Returns v\<close>: returns \<open>v\<close>.
  The engine is taken to have no effect on the values it is given.
\<close>

datatype eval_outcome = FunctionThrows jsstring | ExpressionThrows jsstring | Returns jsval

type_synonym evaluator = "jsstring \<Rightarrow> value_map \<Rightarrow> eval_outcome"

subsection \<open>createSafeContext\<close>

definition math_namespace :: jsval where
  "math_namespace =
     JObj (map (\<lambda>n. (js n, JFun (js ''Math.'' @ js n)))
       [''abs'', ''ceil'', ''floor'', ''max'', ''min'', ''round'', ''pow'', ''sqrt''])"

definition string_namespace :: jsval where
  "string_namespace =
     JObj (map (\<lambda>n. (js n, JFun (js ''String.'' @ js n)))
       [''concat'', ''toLowerCase'', ''toUpperCase'', ''trim'', ''substring''])"

definition number_namespace :: jsval where
  "number_namespace =
     JObj (map (\<lambda>n. (js n, JFun (js ''Number.'' @ js n)))
       [''parseFloat'', ''parseInt'', ''isNaN''])"

text \<open>
  The context is used through \<^verbatim>\<open>Object.keys(context)\<close> and reads of those keys only,
  so the map of its own properties is all of it.
\<close>

definition createSafeContext :: "jsstring list \<Rightarrow> value_map \<Rightarrow> value_map" where
  "createSafeContext parents formValues =
     (fold (\<lambda>fieldId context. js_set context fieldId (js_get formValues fieldId)) parents Map.empty)
       (js ''Math'' \<mapsto> math_namespace,
        js ''String'' \<mapsto> string_namespace,
        js ''Number'' \<mapsto> number_namespace)"

subsection \<open>validateExpression\<close>

text \<open>
  The three shapes of regular expression in \<^verbatim>\<open>dangerousPatterns\<close>:
  \<^verbatim>\<open>/\bw\b/\<close> for a word \<open>w\<close>, \<^verbatim>\<open>/\[\s*['"`]/\<close>, and \<^verbatim>\<open>/\.\s*w/\<close>.
  \<^verbatim>\<open>\w\<close> is \<^verbatim>\<open>[A-Za-z0-9_]\<close>; \<^verbatim>\<open>\b\<close> holds at a position when exactly one
  of the code units before and after it is a word character (the ends of the string
  count as non-word).
\<close>

datatype pattern = WordPattern jsstring | BracketQuote | DotProperty jsstring

definition is_word_char :: "nat \<Rightarrow> bool" where
  "is_word_char c =
     ((65 \<le> c \<and> c \<le> 90) \<or> (97 \<le> c \<and> c \<le> 122) \<or> (48 \<le> c \<and> c \<le> 57) \<or> c = 95)"

definition word_boundary :: "jsstring \<Rightarrow> nat \<Rightarrow> bool" where
  "word_boundary s k =
     ((0 < k \<and> k \<le> length s \<and> is_word_char (s ! (k - 1)))
        \<noteq> (k < length s \<and> is_word_char (s ! k)))"

definition starts_with :: "jsstring \<Rightarrow> jsstring \<Rightarrow> bool" where
  "starts_with w s = (take (length w) s = w)"

fun matches_at :: "pattern \<Rightarrow> jsstring \<Rightarrow> nat \<Rightarrow> bool" where
  "matches_at (WordPattern w) s i =
     (word_boundary s i \<and> starts_with w (drop i s) \<and> word_boundary s (i + length w))"
| "matches_at BracketQuote s i =
     (case drop i s of
        [] \<Rightarrow> False
      | c # rest \<Rightarrow>
          c = 91 \<and>
          (case dropWhile is_whitespace rest of
             [] \<Rightarrow> False
           | q # _ \<Rightarrow> q = 39 \<or> q = 34 \<or> q = 96))"
| "matches_at (DotProperty w) s i =
     (case drop i s of
        [] \<Rightarrow> False
      | c # rest \<Rightarrow> c = 46 \<and> starts_with w (dropWhile is_whitespace rest))"

definition pattern_test :: "pattern \<Rightarrow> jsstring \<Rightarrow> bool" where
  "pattern_test p s = list_ex (matches_at p s) [0 ..< Suc (length s)]"

text \<open>\<^verbatim>\<open>pattern.source\<close>; 92 is the backslash.\<close>

fun pattern_source :: "pattern \<Rightarrow> jsstring" where
  "pattern_source (WordPattern w) = [92, 98] @ w @ [92, 98]"
| "pattern_source BracketQuote = [92, 91, 92, 115, 42, 91, 39, 34, 96, 93]"
| "pattern_source (DotProperty w) = [92, 46, 92, 115, 42] @ w"

definition dangerousPatterns :: "pattern list" where
  "dangerousPatterns =
     map (\<lambda>w. WordPattern (js w))
       [''eval'', ''Function'', ''setTimeout'', ''setInterval'', ''setImmediate'',
        ''require'', ''import'', ''export'', ''process'', ''global'', ''window'',
        ''document'', ''localStorage'', ''sessionStorage'', ''fetch'', ''XMLHttpRequest'',
        ''__proto__'', ''constructor'', ''prototype'', ''this'', ''delete'', ''void'',
        ''typeof'', ''instanceof'', ''in'', ''with'', ''try'', ''catch'', ''finally'',
        ''throw'', ''for'', ''while'', ''do'', ''switch'', ''case'', ''break'',
        ''continue'', ''return'', ''var'', ''let'', ''const'', ''class'', ''extends'',
        ''static'', ''yield'', ''async'', ''await'', ''new'']
     @ [BracketQuote,
        DotProperty (js ''constructor''),
        DotProperty (js ''__proto__''),
        DotProperty (js ''prototype'')]"

fun first_forbidden :: "pattern list \<Rightarrow> jsstring \<Rightarrow> pattern option" where
  "first_forbidden [] expression = None"
| "first_forbidden (p # ps) expression =
     (if pattern_test p expression then Some p else first_forbidden ps expression)"

text \<open>
  The parenthesis counter. \<^verbatim>\<open>for (const char of expression)\<close> iterates code points;
  the two parentheses are single code units that no surrogate equals, so counting over
  code units gives the same result.
\<close>

definition unbalanced :: js_error where
  "unbalanced = Error (js ''Unbalanced parentheses in expression'')"

fun parenCount_loop :: "jsstring \<Rightarrow> int \<Rightarrow> js_error + int" where
  "parenCount_loop [] parenCount = Inr parenCount"
| "parenCount_loop (c # cs) parenCount =
     (let n1 = (if c = 40 then parenCount + 1 else parenCount);
          n2 = (if c = 41 then n1 - 1 else n1)
      in if n2 < 0 then Inl unbalanced else parenCount_loop cs n2)"

definition validateExpression :: "jsstring \<Rightarrow> js_error + unit" where
  "validateExpression expression =
     (case first_forbidden dangerousPatterns expression of
        Some p \<Rightarrow>
          Inl (Error (js ''Expression contains forbidden pattern: '' @ pattern_source p))
      | None \<Rightarrow>
          if length expression > 500
          then Inl (Error (js ''Expression is too long (maximum 500 characters)''))
          else (case parenCount_loop expression 0 of
                  Inl e \<Rightarrow> Inl e
                | Inr parenCount \<Rightarrow> if parenCount \<noteq> 0 then Inl unbalanced else Inr ()))"

subsection \<open>validateResult and safeEvaluate\<close>

definition complex_objects :: js_error where
  "complex_objects = Error (js ''Complex objects not allowed in derived field results'')"

fun validateResult :: "jsval \<Rightarrow> js_error + jsval" where
  "validateResult r =
     (if r = JNull \<or> r = JUndefined then Inr r
      else if js_typeof r = TString \<or> js_typeof r = TNumber \<or> js_typeof r = TBoolean then Inr r
      else (case r of
              JDate t \<Rightarrow> Inr r
            | JArr items \<Rightarrow>
                if list_ex (\<lambda>item. js_typeof item = TObject \<and> item \<noteq> JNull) items
                then Inl complex_objects
                else Inr (JArr items)
            | _ \<Rightarrow>
                if js_typeof r = TObject then Inl complex_objects
                else if js_typeof r = TFunction
                  then Inl (Error (js ''Functions not allowed in derived field results''))
                else Inr r))"

text \<open>
  \<^verbatim>\<open>validateExpression\<close> is called before the \<^verbatim>\<open>try\<close> of \<^verbatim>\<open>safeEvaluate\<close>:
  its error leaves \<^verbatim>\<open>safeEvaluate\<close> unwrapped. Everything raised inside the
  \<^verbatim>\<open>try\<close> is rethrown with the prefix of the \<^verbatim>\<open>catch\<close>.
\<close>

definition safeEvaluate :: "evaluator \<Rightarrow> jsstring \<Rightarrow> value_map \<Rightarrow> js_error + jsval" where
  "safeEvaluate ev expression context =
     (case validateExpression expression of
        Inl e \<Rightarrow> Inl e
      | Inr _ \<Rightarrow>
          (case (case ev expression context of
                   FunctionThrows m \<Rightarrow> Inl (Error m)
                 | ExpressionThrows m \<Rightarrow> Inl (Error (js ''Expression evaluation failed: '' @ m))
                 | Returns r \<Rightarrow> validateResult r) of
             Inl e \<Rightarrow> Inl (Error (js ''Expression evaluation error: '' @ error_text e))
           | Inr r \<Rightarrow> Inr r))"

subsection \<open>computeValue\<close>

fun js_truthy :: "jsval \<Rightarrow> bool" where
  "js_truthy JUndefined = False"
| "js_truthy JNull = False"
| "js_truthy (JBool b) = b"
| "js_truthy (JNum n) = (n \<noteq> 0)"
| "js_truthy (JStr s) = (s \<noteq> [])"
| "js_truthy v = True"

fun js_join :: "jsstring \<Rightarrow> jsstring list \<Rightarrow> jsstring" where
  "js_join sep [] = []"
| "js_join sep [x] = x"
| "js_join sep (x # y # ys) = x @ sep @ js_join sep (y # ys)"

text \<open>The text of a value whose \<^verbatim>\<open>typeof\<close> is \<^verbatim>\<open>'string'\<close>.\<close>

fun string_of :: "jsval \<Rightarrow> jsstring" where
  "string_of (JStr s) = s"
| "string_of v = []"

text \<open>The body of the \<^verbatim>\<open>try\<close> block of \<^verbatim>\<open>computeValue\<close>; \<open>Inl\<close> is a throw.\<close>

definition computeValue_try ::
  "evaluator \<Rightarrow> derived_field_config \<Rightarrow> value_map \<Rightarrow> js_error + compute_result" where
  "computeValue_try ev config formValues =
     (let missingParents = filter (\<lambda>parentId. \<not> js_in parentId formValues) (parentFields config)
      in if length missingParents > 0
         then Inr \<lparr>result_value = JNull,
                   result_error = Some
                     \<lparr>error_type = missing_parent,
                      error_message =
                        js ''Missing parent field values: '' @ js_join (js '', '') missingParents,
                      error_fieldId = None, originalError = None\<rparr>\<rparr>
         else if \<not> js_truthy (computationLogic config)
                 \<or> js_typeof (computationLogic config) \<noteq> TString
         then Inr \<lparr>result_value = JNull,
                   result_error = Some
                     \<lparr>error_type = invalid_expression,
                      error_message = js ''Computation logic must be a non-empty string'',
                      error_fieldId = None, originalError = None\<rparr>\<rparr>
         else (let expression = string_of (computationLogic config);
                   context = createSafeContext (parentFields config) formValues
               in case safeEvaluate ev expression context of
                    Inl e \<Rightarrow> Inl e
                  | Inr r \<Rightarrow> Inr \<lparr>result_value = r, result_error = None\<rparr>))"

text \<open>The \<^verbatim>\<open>catch\<close> clause of \<^verbatim>\<open>computeValue\<close>.\<close>

definition computeValue_catch :: "js_error \<Rightarrow> js_error + compute_result" where
  "computeValue_catch e =
     Inr \<lparr>result_value = JNull,
          result_error = Some
            \<lparr>error_type = evaluation_error,
             error_message =
               (if error_text e \<noteq> [] then error_text e
                else js ''Failed to evaluate derived field expression''),
             error_fieldId = None, originalError = Some e\<rparr>\<rparr>"

definition computeValue ::
  "evaluator \<Rightarrow> derived_field_config \<Rightarrow> value_map \<Rightarrow> js_error + compute_result" where
  "computeValue ev config formValues =
     (case computeValue_try ev config formValues of
        Inl e \<Rightarrow> computeValue_catch e
      | Inr r \<Rightarrow> Inr r)"

subsection \<open>computeValue on a host that may not return\<close>

text \<open>
  The engine above returns a value or raises an \<^verbatim>\<open>Error\<close> object, which is what the
  evaluation of an expression does as a rule. An expression that
  \<^verbatim>\<open>validateExpression\<close> accepts can also make the host do otherwise: the evaluation
  may not return, and it may raise a value whose property \<^verbatim>\<open>message\<close> cannot be read.
  The \<^verbatim>\<open>catch\<close> clauses use nothing of the value they catch but that property, so a
  raised value is described by what a read of it does: \<open>ErrorObject e\<close> is the
  \<^verbatim>\<open>Error\<close> object \<open>e\<close>, whose message is a string, and \<open>MessageTrap x\<close> is an object
  whose getter for \<^verbatim>\<open>message\<close> raises \<open>x\<close>.
\<close>

datatype raised_value = ErrorObject js_error | MessageTrap raised_value

fun read_message :: "raised_value \<Rightarrow> raised_value + jsstring" where
  "read_message (ErrorObject e) = Inr (error_text e)"
| "read_message (MessageTrap x) = Inl x"

text \<open>What a call does: it returns a value, raises a value, or does not return.\<close>

datatype 'a outcome = Returned 'a | Raised raised_value | NoReturn

text \<open>
  What the host does with \<^verbatim>\<open>new Function(...contextKeys, functionBody)\<close> and with the
  expression inside the function body: \<^verbatim>\<open>new Function\<close> raises a syntax error, or
  the evaluation of the expression gives a value, raises a value, or does not return.
\<close>

datatype host_outcome =
    HostSyntaxError jsstring
  | HostValue jsval
  | HostRaises raised_value
  | HostHangs

type_synonym host = "jsstring \<Rightarrow> value_map \<Rightarrow> host_outcome"

text \<open>
  The two statements \<^verbatim>\<open>const func = new Function(...)\<close> and
  \<^verbatim>\<open>const result = func(...contextValues)\<close>. The function body catches what the
  expression raises and raises \<^verbatim>\<open>new Error('Expression evaluation failed: ' + error.message)\<close>
  instead; when the read of \<^verbatim>\<open>error.message\<close> raises, that value leaves the
  function.
\<close>

definition call_function :: "host \<Rightarrow> jsstring \<Rightarrow> value_map \<Rightarrow> jsval outcome" where
  "call_function h expression context =
     (case h expression context of
        HostSyntaxError m \<Rightarrow> Raised (ErrorObject (Error m))
      | HostValue v \<Rightarrow> Returned v
      | HostRaises x \<Rightarrow>
          (case read_message x of
             Inr m \<Rightarrow> Raised (ErrorObject (Error (js ''Expression evaluation failed: '' @ m)))
           | Inl y \<Rightarrow> Raised y)
      | HostHangs \<Rightarrow> NoReturn)"

definition safeEvaluate_host :: "host \<Rightarrow> jsstring \<Rightarrow> value_map \<Rightarrow> jsval outcome" where
  "safeEvaluate_host h expression context =
     (case validateExpression expression of
        Inl e \<Rightarrow> Raised (ErrorObject e)
      | Inr _ \<Rightarrow>
          (case (case call_function h expression context of
                   Returned result \<Rightarrow>
                     (case validateResult result of
                        Inl e \<Rightarrow> Raised (ErrorObject e)
                      | Inr r \<Rightarrow> Returned r)
                 | Raised x \<Rightarrow> Raised x
                 | NoReturn \<Rightarrow> NoReturn) of
             Returned r \<Rightarrow> Returned r
           | Raised x \<Rightarrow>
               (case read_message x of
                  Inr m \<Rightarrow> Raised (ErrorObject (Error (js ''Expression evaluation error: '' @ m)))
                | Inl y \<Rightarrow> Raised y)
           | NoReturn \<Rightarrow> NoReturn))"

text \<open>
  \<^verbatim>\<open>computeValue\<close>, the \<^verbatim>\<open>try\<close> block and the \<^verbatim>\<open>catch\<close> clause. The clause reads
  \<^verbatim>\<open>error.message\<close> to build the result object; when that read raises, the value
  leaves \<^verbatim>\<open>computeValue\<close>.
\<close>

definition computeValue_host ::
  "host \<Rightarrow> derived_field_config \<Rightarrow> value_map \<Rightarrow> compute_result outcome" where
  "computeValue_host h config formValues =
     (case (let missingParents =
                  filter (\<lambda>parentId. \<not> js_in parentId formValues) (parentFields config)
            in if length missingParents > 0
               then Returned \<lparr>result_value = JNull,
                     result_error = Some
                       \<lparr>error_type = missing_parent,
                        error_message =
                          js ''Missing parent field values: ''
                            @ js_join (js '', '') missingParents,
                        error_fieldId = None, originalError = None\<rparr>\<rparr>
               else if \<not> js_truthy (computationLogic config)
                       \<or> js_typeof (computationLogic config) \<noteq> TString
               then Returned \<lparr>result_value = JNull,
                     result_error = Some
                       \<lparr>error_type = invalid_expression,
                        error_message = js ''Computation logic must be a non-empty string'',
                        error_fieldId = None, originalError = None\<rparr>\<rparr>
               else (let expression = string_of (computationLogic config);
                         context = createSafeContext (parentFields config) formValues
                     in case safeEvaluate_host h expression context of
                          Returned r \<Rightarrow> Returned \<lparr>result_value = r, result_error = None\<rparr>
                        | Raised x \<Rightarrow> Raised x
                        | NoReturn \<Rightarrow> NoReturn)) of
        Returned r \<Rightarrow> Returned r
      | Raised x \<Rightarrow>
          (case read_message x of
             Inr m \<Rightarrow>
               Returned \<lparr>result_value = JNull,
                 result_error = Some
                   \<lparr>error_type = evaluation_error,
                    error_message =
                      (if m \<noteq> [] then m
                       else js ''Failed to evaluate derived field expression''),
                    error_fieldId = None, originalError = Some (Error m)\<rparr>\<rparr>
           | Inl y \<Rightarrow> Raised y)
      | NoReturn \<Rightarrow> NoReturn)"

text \<open>An engine that returns or raises an \<^verbatim>\<open>Error\<close> object, as a host.\<close>

fun host_of :: "eval_outcome \<Rightarrow> host_outcome" where
  "host_of (FunctionThrows m) = HostSyntaxError m"
| "host_of (ExpressionThrows m) = HostRaises (ErrorObject (Error m))"
| "host_of (Returns v) = HostValue v"

subsection \<open>detectCircularDependencies\<close>

text \<open>\<^verbatim>\<open>derivedFields.find(f => f.id === fieldId)\<close>: the first field with that id.\<close>

definition find_field :: "form_field list \<Rightarrow> jsstring \<Rightarrow> form_field option" where
  "find_field derivedFields fieldId = find (\<lambda>f. field_id f = fieldId) derivedFields"

record cycle_state =
  visited :: "jsstring set"
  recursionStack :: "jsstring set"

text \<open>
  The closure \<^verbatim>\<open>hasCycle\<close> and its loop over the parents, with the two sets it
  mutates passed through. The loop returns as soon as a call finds a cycle.
\<close>

function hasCycle :: "form_field list \<Rightarrow> jsstring \<Rightarrow> cycle_state \<Rightarrow> bool \<times> cycle_state"
  and hasCycle_parents ::
    "form_field list \<Rightarrow> jsstring list \<Rightarrow> cycle_state \<Rightarrow> bool \<times> cycle_state"
where
  "hasCycle derivedFields fieldId st =
     (if fieldId \<in> recursionStack st then (True, st)
      else if fieldId \<in> visited st then (False, st)
      else
        let st1 = st\<lparr>visited := insert fieldId (visited st),
                     recursionStack := insert fieldId (recursionStack st)\<rparr>
        in (case find_field derivedFields fieldId of
              None \<Rightarrow> (False, st1\<lparr>recursionStack := recursionStack st1 - {fieldId}\<rparr>)
            | Some field \<Rightarrow>
                (case derivedFrom field of
                   None \<Rightarrow> (False, st1\<lparr>recursionStack := recursionStack st1 - {fieldId}\<rparr>)
                 | Some config \<Rightarrow>
                     (let (found, st2) = hasCycle_parents derivedFields (parentFields config) st1
                      in if found then (True, st2)
                         else (False, st2\<lparr>recursionStack := recursionStack st2 - {fieldId}\<rparr>)))))"
| "hasCycle_parents derivedFields [] st = (False, st)"
| "hasCycle_parents derivedFields (parentId # rest) st =
     (case find_field derivedFields parentId of
        None \<Rightarrow> hasCycle_parents derivedFields rest st
      | Some parentField \<Rightarrow>
          (case derivedFrom parentField of
             None \<Rightarrow> hasCycle_parents derivedFields rest st
           | Some config \<Rightarrow>
               (let (found, st') = hasCycle derivedFields parentId st
                in if found then (True, st')
                   else hasCycle_parents derivedFields rest st')))"
  by pat_completeness auto

lemma find_field_Some: "find_field dfs i = Some f \<Longrightarrow> f \<in> set dfs \<and> field_id f = i"
  unfolding find_field_def by (induction dfs) (auto split: if_splits)

lemma hasCycle_visited_mono_dom:
  "hasCycle_hasCycle_parents_dom (Inl (dfs, fid, st)) \<Longrightarrow>
     visited st \<subseteq> visited (snd (hasCycle dfs fid st))"
  "hasCycle_hasCycle_parents_dom (Inr (dfs, ps, st)) \<Longrightarrow>
     visited st \<subseteq> visited (snd (hasCycle_parents dfs ps st))"
proof (induction dfs fid st and dfs ps st rule: hasCycle_hasCycle_parents.pinduct)
  case (1 dfs fid st)
  let ?st1 = "st\<lparr>visited := insert fid (visited st),
                 recursionStack := insert fid (recursionStack st)\<rparr>"
  note eq = hasCycle.psimps[OF 1(1)]
  show ?case
  proof (cases "fid \<in> recursionStack st \<or> fid \<in> visited st")
    case True
    then show ?thesis by (auto simp: eq)
  next
    case False
    show ?thesis
    proof (cases "find_field dfs fid")
      case None
      then show ?thesis using False by (auto simp: eq)
    next
      case (Some f)
      show ?thesis
      proof (cases "derivedFrom f")
        case None
        then show ?thesis using False Some by (auto simp: eq)
      next
        case (Some cfg)
        have "visited ?st1 \<subseteq> visited (snd (hasCycle_parents dfs (parentFields cfg) ?st1))"
          using 1(2)[OF _ _ refl \<open>find_field dfs fid = Some f\<close> Some] False by simp
        then show ?thesis using False Some \<open>find_field dfs fid = Some f\<close>
          by (auto simp: eq Let_def split: prod.splits)
      qed
    qed
  qed
next
  case (2 dfs st)
  then show ?case by (simp add: hasCycle_parents.psimps)
next
  case (3 dfs p rest st)
  note eq = hasCycle_parents.psimps(2)[OF 3(1)]
  show ?case
  proof (cases "find_field dfs p")
    case None
    then show ?thesis using 3(2) by (simp add: eq)
  next
    case (Some pf)
    show ?thesis
    proof (cases "derivedFrom pf")
      case None
      then show ?thesis using 3(3)[OF Some] Some by (simp add: eq)
    next
      case (Some cfg)
      note pf = \<open>find_field dfs p = Some pf\<close>
      obtain found st' where r: "hasCycle dfs p st = (found, st')"
        by (cases "hasCycle dfs p st")
      have a: "visited st \<subseteq> visited st'" using 3(4)[OF pf Some] r by simp
      show ?thesis
      proof (cases found)
        case True
        then show ?thesis using a r Some pf by (simp add: eq)
      next
        case f: False
        have "visited st' \<subseteq> visited (snd (hasCycle_parents dfs rest st'))"
          using 3(5)[OF pf Some refl r[symmetric]] f by simp
        then show ?thesis using a r Some pf f by (auto simp: eq)
      qed
    qed
  qed
qed

termination hasCycle
  apply (relation "inv_image (less_than <*lex*> less_than <*lex*> less_than)
    (\<lambda>x. case x of
       Inl (dfs, fid, st) \<Rightarrow> (card (field_id ` set dfs - visited st), 0::nat, 0::nat)
     | Inr (dfs, ps, st) \<Rightarrow> (card (field_id ` set dfs - visited st), 1, length ps))")
  subgoal by (intro wf_inv_image wf_lex_prod wf_less_than)
  subgoal for dfs fid st st1 f cfg
  proof -
    assume a: "fid \<notin> recursionStack st" "fid \<notin> visited st"
      "st1 = st\<lparr>visited := insert fid (visited st),
                 recursionStack := insert fid (recursionStack st)\<rparr>"
      "find_field dfs fid = Some f"
    have "fid \<in> field_id ` set dfs" using a(4) find_field_Some by force
    hence "card (field_id ` set dfs - insert fid (visited st))
             < card (field_id ` set dfs - visited st)"
      using a(2) by (intro psubset_card_mono) auto
    thus ?thesis using a(3) by simp
  qed
  subgoal by simp
  subgoal by simp
  subgoal by simp
  subgoal for dfs p rest st pf cfg x found st'
  proof -
    assume d: "hasCycle_hasCycle_parents_dom (Inl (dfs, p, st))"
      and x: "x = hasCycle dfs p st" "(found, st') = x"
    have "visited st \<subseteq> visited st'"
      using hasCycle_visited_mono_dom(1)[OF d] x by (metis snd_conv)
    hence "card (field_id ` set dfs - visited st') \<le> card (field_id ` set dfs - visited st)"
      by (intro card_mono) auto
    thus ?thesis by auto
  qed
  done

declare hasCycle.simps [simp del] hasCycle_parents.simps(2) [simp del]

definition circularDependencyError :: derived_field_error where
  "circularDependencyError =
     \<lparr>error_type = circular_dependency,
      error_message = js ''Circular dependency detected in derived fields'',
      error_fieldId = None, originalError = None\<rparr>"

fun detect_loop ::
  "form_field list \<Rightarrow> form_field list \<Rightarrow> cycle_state \<Rightarrow> derived_field_error option" where
  "detect_loop derivedFields [] st = None"
| "detect_loop derivedFields (field # rest) st =
     (if field_id field \<notin> visited st
      then (let (found, st') = hasCycle derivedFields (field_id field) st
            in if found then Some circularDependencyError
               else detect_loop derivedFields rest st')
      else detect_loop derivedFields rest st)"

definition detectCircularDependencies :: "form_field list \<Rightarrow> derived_field_error option" where
  "detectCircularDependencies derivedFields =
     detect_loop derivedFields derivedFields \<lparr>visited = {}, recursionStack = {}\<rparr>"

subsection \<open>sortFieldsByDependencies\<close>

record sort_state =
  sorted_fields :: "form_field list"
  visited_sort :: "jsstring set"
  temp :: "jsstring set"

function visit :: "form_field list \<Rightarrow> form_field \<Rightarrow> sort_state \<Rightarrow> sort_state"
  and visit_parents :: "form_field list \<Rightarrow> jsstring list \<Rightarrow> sort_state \<Rightarrow> sort_state"
where
  "visit derivedFields field st =
     (if field_id field \<in> temp st then st
      else if field_id field \<in> visited_sort st then st
      else
        let st1 = st\<lparr>temp := insert (field_id field) (temp st)\<rparr>;
            st2 = (case derivedFrom field of
                     None \<Rightarrow> st1
                   | Some config \<Rightarrow> visit_parents derivedFields (parentFields config) st1)
        in st2\<lparr>temp := temp st2 - {field_id field},
               visited_sort := insert (field_id field) (visited_sort st2),
               sorted_fields := sorted_fields st2 @ [field]\<rparr>)"
| "visit_parents derivedFields [] st = st"
| "visit_parents derivedFields (parentId # rest) st =
     (case find_field derivedFields parentId of
        None \<Rightarrow> visit_parents derivedFields rest st
      | Some parentField \<Rightarrow>
          (case derivedFrom parentField of
             None \<Rightarrow> visit_parents derivedFields rest st
           | Some config \<Rightarrow>
               visit_parents derivedFields rest (visit derivedFields parentField st)))"
  by pat_completeness auto

lemma visit_marks_mono_dom:
  "visit_visit_parents_dom (Inl (dfs, f, st)) \<Longrightarrow>
     temp st \<union> visited_sort st \<subseteq> temp (visit dfs f st) \<union> visited_sort (visit dfs f st)"
  "visit_visit_parents_dom (Inr (dfs, ps, st)) \<Longrightarrow>
     temp st \<union> visited_sort st
       \<subseteq> temp (visit_parents dfs ps st) \<union> visited_sort (visit_parents dfs ps st)"
proof (induction dfs f st and dfs ps st rule: visit_visit_parents.pinduct)
  case (1 dfs f st)
  note eq = visit.psimps[OF 1(1)]
  let ?st1 = "st\<lparr>temp := insert (field_id f) (temp st)\<rparr>"
  show ?case
  proof (cases "field_id f \<in> temp st \<or> field_id f \<in> visited_sort st")
    case True
    then show ?thesis by (auto simp: eq)
  next
    case False
    show ?thesis
    proof (cases "derivedFrom f")
      case None
      then show ?thesis using False by (auto simp: eq)
    next
      case (Some cfg)
      have "temp ?st1 \<union> visited_sort ?st1
              \<subseteq> temp (visit_parents dfs (parentFields cfg) ?st1)
                  \<union> visited_sort (visit_parents dfs (parentFields cfg) ?st1)"
        using 1(2)[OF _ _ refl Some] False by simp
      then show ?thesis using False Some by (auto simp: eq Let_def)
    qed
  qed
next
  case (2 dfs st)
  then show ?case by (simp add: visit_parents.psimps)
next
  case (3 dfs p rest st)
  note eq = visit_parents.psimps(2)[OF 3(1)]
  show ?case
  proof (cases "find_field dfs p")
    case None
    then show ?thesis using 3(2) by (simp add: eq)
  next
    case (Some pf)
    note pf = this
    show ?thesis
    proof (cases "derivedFrom pf")
      case None
      then show ?thesis using 3(3)[OF pf] pf by (simp add: eq)
    next
      case (Some cfg)
      have a: "temp st \<union> visited_sort st \<subseteq> temp (visit dfs pf st) \<union> visited_sort (visit dfs pf st)"
        using 3(4)[OF pf Some] .
      have b: "temp (visit dfs pf st) \<union> visited_sort (visit dfs pf st)
                 \<subseteq> temp (visit_parents dfs rest (visit dfs pf st))
                     \<union> visited_sort (visit_parents dfs rest (visit dfs pf st))"
        using 3(5)[OF pf Some] .
      show ?thesis using a b pf Some by (simp add: eq) blast
    qed
  qed
qed

termination visit
  apply (relation "inv_image (less_than <*lex*> less_than <*lex*> less_than)
    (\<lambda>x. case x of
       Inl (dfs, f, st) \<Rightarrow>
         (card (field_id ` set dfs - (temp st \<union> visited_sort st))
            + (if field_id f \<in> field_id ` set dfs then 0 else 1), 0::nat, 0::nat)
     | Inr (dfs, ps, st) \<Rightarrow>
         (card (field_id ` set dfs - (temp st \<union> visited_sort st)), 1, length ps))")
  subgoal by (intro wf_inv_image wf_lex_prod wf_less_than)
  subgoal for dfs f st st1 cfg
  proof -
    assume a: "field_id f \<notin> temp st" "field_id f \<notin> visited_sort st"
      "st1 = st\<lparr>temp := insert (field_id f) (temp st)\<rparr>"
    show ?thesis
    proof (cases "field_id f \<in> field_id ` set dfs")
      case True
      hence "card (field_id ` set dfs - (insert (field_id f) (temp st) \<union> visited_sort st))
               < card (field_id ` set dfs - (temp st \<union> visited_sort st))"
        using a(1,2) by (intro psubset_card_mono) auto
      thus ?thesis using a(3) True by simp
    next
      case False
      hence "field_id ` set dfs - (insert (field_id f) (temp st) \<union> visited_sort st)
               = field_id ` set dfs - (temp st \<union> visited_sort st)" by auto
      thus ?thesis using a(3) False by simp
    qed
  qed
  subgoal by simp
  subgoal by simp
  subgoal for dfs p rest st pf cfg
    using find_field_Some[of dfs p pf] by auto
  subgoal for dfs p rest st pf cfg
  proof -
    assume d: "visit_visit_parents_dom (Inl (dfs, pf, st))"
    have "temp st \<union> visited_sort st \<subseteq> temp (visit dfs pf st) \<union> visited_sort (visit dfs pf st)"
      using visit_marks_mono_dom(1)[OF d] .
    hence "card (field_id ` set dfs - (temp (visit dfs pf st) \<union> visited_sort (visit dfs pf st)))
             \<le> card (field_id ` set dfs - (temp st \<union> visited_sort st))"
      by (intro card_mono) auto
    thus ?thesis by auto
  qed
  done

declare visit.simps [simp del] visit_parents.simps(2) [simp del]

fun sort_loop :: "form_field list \<Rightarrow> form_field list \<Rightarrow> sort_state \<Rightarrow> sort_state" where
  "sort_loop derivedFields [] st = st"
| "sort_loop derivedFields (field # rest) st =
     (if field_id field \<notin> visited_sort st
      then sort_loop derivedFields rest (visit derivedFields field st)
      else sort_loop derivedFields rest st)"

definition sortFieldsByDependencies :: "form_field list \<Rightarrow> form_field list" where
  "sortFieldsByDependencies derivedFields =
     sorted_fields
       (sort_loop derivedFields derivedFields
          \<lparr>sorted_fields = [], visited_sort = {}, temp = {}\<rparr>)"

subsection \<open>updateDerivedFields\<close>

text \<open>
  The loop over the sorted fields, on the working copy \<open>updatedValues\<close> and the error
  object. \<^verbatim>\<open>computeValue\<close> is called outside any \<^verbatim>\<open>try\<close>: had it thrown, the
  loop would throw.
\<close>

fun derive_loop ::
  "evaluator \<Rightarrow> form_field list \<Rightarrow> value_map \<times> (jsstring \<rightharpoonup> derived_field_error)
     \<Rightarrow> js_error + value_map \<times> (jsstring \<rightharpoonup> derived_field_error)" where
  "derive_loop ev [] (updatedValues, errs) = Inr (updatedValues, errs)"
| "derive_loop ev (field # rest) (updatedValues, errs) =
     (case derivedFrom field of
        None \<Rightarrow> derive_loop ev rest (updatedValues, errs)
      | Some config \<Rightarrow>
          (case computeValue ev config updatedValues of
             Inl e \<Rightarrow> Inl e
           | Inr result \<Rightarrow>
               (case result_error result of
                  Some err \<Rightarrow>
                    derive_loop ev rest
                      (updatedValues,
                       errs(field_id field \<mapsto> err\<lparr>error_fieldId := Some (field_id field)\<rparr>))
                | None \<Rightarrow>
                    derive_loop ev rest
                      (js_set updatedValues (field_id field) (result_value result), errs))))"

definition derived_fields_of :: "form_schema \<Rightarrow> form_field list" where
  "derived_fields_of schema = filter (\<lambda>field. derivedFrom field \<noteq> None) (schema_fields schema)"

definition updateDerivedFields ::
  "evaluator \<Rightarrow> value_map \<Rightarrow> form_schema \<Rightarrow> js_error + update_result" where
  "updateDerivedFields ev formValues schema =
     (let updatedValues = formValues;
          derivedFields = derived_fields_of schema
      in case detectCircularDependencies derivedFields of
           Some circularError \<Rightarrow>
             Inr \<lparr>updated_values = updatedValues,
                  derived_errors =
                    fold (\<lambda>field errs. errs(field_id field \<mapsto> circularError))
                      derivedFields Map.empty\<rparr>
         | None \<Rightarrow>
             (case derive_loop ev (sortFieldsByDependencies derivedFields)
                     (updatedValues, Map.empty) of
                Inl e \<Rightarrow> Inl e
              | Inr (vals, errs) \<Rightarrow> Inr \<lparr>updated_values = vals, derived_errors = errs\<rparr>))"

subsection \<open>updateDerivedFields on a store of objects\<close>

text \<open>
  The same function with the identity of the values objects made explicit: the store
  lists the objects, and a reference is an index into it. \<^verbatim>\<open>{ ...formValues }\<close>
  allocates a new object with the entries of the caller's object; the loop reads and
  writes the new object through its reference.
\<close>

type_synonym store = "value_map list"

fun derive_loop_store ::
  "evaluator \<Rightarrow> form_field list \<Rightarrow> nat \<Rightarrow> store \<times> (jsstring \<rightharpoonup> derived_field_error)
     \<Rightarrow> js_error + store \<times> (jsstring \<rightharpoonup> derived_field_error)" where
  "derive_loop_store ev [] updatedValues (objects, errs) = Inr (objects, errs)"
| "derive_loop_store ev (field # rest) updatedValues (objects, errs) =
     (case derivedFrom field of
        None \<Rightarrow> derive_loop_store ev rest updatedValues (objects, errs)
      | Some config \<Rightarrow>
          (case computeValue ev config (objects ! updatedValues) of
             Inl e \<Rightarrow> Inl e
           | Inr result \<Rightarrow>
               (case result_error result of
                  Some err \<Rightarrow>
                    derive_loop_store ev rest updatedValues
                      (objects,
                       errs(field_id field \<mapsto> err\<lparr>error_fieldId := Some (field_id field)\<rparr>))
                | None \<Rightarrow>
                    derive_loop_store ev rest updatedValues
                      (objects[updatedValues :=
                         js_set (objects ! updatedValues) (field_id field) (result_value result)],
                       errs))))"

definition updateDerivedFields_store ::
  "evaluator \<Rightarrow> store \<Rightarrow> nat \<Rightarrow> form_schema
     \<Rightarrow> js_error + store \<times> nat \<times> (jsstring \<rightharpoonup> derived_field_error)" where
  "updateDerivedFields_store ev objects formValues schema =
     (let updatedValues = length objects;
          objects1 = objects @ [objects ! formValues];
          derivedFields = derived_fields_of schema
      in case detectCircularDependencies derivedFields of
           Some circularError \<Rightarrow>
             Inr (objects1, updatedValues,
                  fold (\<lambda>field errs. errs(field_id field \<mapsto> circularError))
                    derivedFields Map.empty)
         | None \<Rightarrow>
             (case derive_loop_store ev (sortFieldsByDependencies derivedFields) updatedValues
                     (objects1, Map.empty) of
                Inl e \<Rightarrow> Inl e
              | Inr (objects2, errs) \<Rightarrow> Inr (objects2, updatedValues, errs)))"

section \<open>Properties of the ValidationEngine\<close>

lemma js_trim_empty_iff: "js_trim s = [] \<longleftrightarrow> list_all is_whitespace s"
proof -
  have "js_trim s = []" if a: "dropWhile is_whitespace s = []"
    unfolding js_trim_def a by simp
  moreover have "js_trim s = [] \<Longrightarrow> dropWhile is_whitespace s = []"
  proof -
    assume "js_trim s = []"
    hence "\<forall>x\<in>set (dropWhile is_whitespace s). is_whitespace x"
      by (simp add: js_trim_def dropWhile_eq_Nil_conv)
    thus ?thesis
      using hd_dropWhile[of is_whitespace s] by (cases "dropWhile is_whitespace s") auto
  qed
  ultimately have "js_trim s = [] \<longleftrightarrow> dropWhile is_whitespace s = []" by blast
  thus ?thesis by (simp add: dropWhile_eq_Nil_conv list_all_iff)
qed

lemma notEmpty_cases:
  "validateNotEmpty v message =
     (if v = JNull \<or> v = JUndefined
         \<or> (\<exists>s. v = JStr s \<and> list_all is_whitespace s)
         \<or> v = JArr []
         \<or> (js_typeof v = TObject \<and> object_keys_length v = 0)
      then Some message else None)"
  by (cases v) (simp_all add: js_trim_empty_iff)

text \<open>
  Names for the parts of the loop body: the rules a field declares, the rule of a
  required field, the rules that are evaluated, and the field after the call.
\<close>

definition declared_rules :: "form_field \<Rightarrow> validation_rule list" where
  "declared_rules field = (case validation field of None \<Rightarrow> [] | Some rs \<Rightarrow> rs)"

definition synthesized_rule :: "'rules field_object \<Rightarrow> validation_rule" where
  "synthesized_rule field =
     \<lparr>rule_type = NotEmpty, rule_value = None,
      rule_message = label field @ js '' is required''\<rparr>"

definition has_notEmpty_rule :: "validation_rule list \<Rightarrow> bool" where
  "has_notEmpty_rule rules = list_ex (\<lambda>rule. rule_type rule = NotEmpty) rules"

definition effective_rules :: "form_field \<Rightarrow> validation_rule list" where
  "effective_rules field =
     (if required field \<and> \<not> has_notEmpty_rule (declared_rules field)
      then synthesized_rule field # declared_rules field
      else declared_rules field)"

definition field_after_unshift :: "form_field \<Rightarrow> form_field" where
  "field_after_unshift field =
     (if required field \<and> \<not> has_notEmpty_rule (declared_rules field)
      then (case validation field of
              None \<Rightarrow> field
            | Some rs \<Rightarrow> field\<lparr>validation := Some (synthesized_rule field # rs)\<rparr>)
      else field)"

lemma required_step_eq: "required_step field = (effective_rules field, field_after_unshift field)"
  by (cases "validation field")
     (simp_all add: required_step_def effective_rules_def field_after_unshift_def
        declared_rules_def has_notEmpty_rule_def synthesized_rule_def Let_def)

lemma validateForm_loop_Cons [simp]:
  "validateForm_loop rt vals (field # rest) acc =
     (let result = validateField rt (js_get vals (field_id field)) (effective_rules field);
          acc' = (if \<not> isValid result
                  then \<lparr>formIsValid = False,
                        fieldErrors = (fieldErrors acc)(field_id field \<mapsto> errors result)\<rparr>
                  else acc)
      in (fst (validateForm_loop rt vals rest acc'),
          field_after_unshift field # snd (validateForm_loop rt vals rest acc')))"
  by (simp add: required_step_eq Let_def case_prod_beta)

declare validateForm_loop.simps(2) [simp del]

text \<open>What \<^verbatim>\<open>validateField\<close> returns for a field inside \<^verbatim>\<open>validateForm\<close>.\<close>

definition field_report :: "js_runtime \<Rightarrow> value_map \<Rightarrow> form_field \<Rightarrow> validation_result" where
  "field_report rt vals f = validateField rt (js_get vals (field_id f)) (effective_rules f)"

lemma validateForm_loop_other:
  "k \<notin> field_id ` set fs \<Longrightarrow>
     fieldErrors (fst (validateForm_loop rt vals fs acc)) k = fieldErrors acc k"
  by (induction fs arbitrary: acc) (simp_all add: Let_def case_prod_beta)

lemma validateForm_loop_field:
  "distinct (map field_id fs) \<Longrightarrow> f \<in> set fs \<Longrightarrow>
     fieldErrors (fst (validateForm_loop rt vals fs acc)) (field_id f) =
       (if isValid (field_report rt vals f) then fieldErrors acc (field_id f)
        else Some (errors (field_report rt vals f)))"
proof (induction fs arbitrary: acc)
  case Nil
  then show ?case by simp
next
  case (Cons g fs)
  show ?case
  proof (cases "f = g")
    case True
    hence "field_id f \<notin> field_id ` set fs" using Cons.prems(1) by auto
    from validateForm_loop_other[OF this] show ?thesis using True
      by (simp add: Let_def field_report_def case_prod_beta)
  next
    case False
    hence f: "f \<in> set fs" and ne: "field_id g \<noteq> field_id f" using Cons.prems by auto
    show ?thesis using Cons.IH[OF _ f] Cons.prems(1) ne
      by (simp add: Let_def case_prod_beta)
  qed
qed

lemma validateForm_loop_valid:
  "formIsValid (fst (validateForm_loop rt vals fs acc)) =
     (formIsValid acc \<and> list_all (\<lambda>f. isValid (field_report rt vals f)) fs)"
  by (induction fs arbitrary: acc) (auto simp: Let_def field_report_def case_prod_beta)

lemma validateForm_loop_fields:
  "snd (validateForm_loop rt vals fs acc) = map field_after_unshift fs"
  by (induction fs arbitrary: acc) (simp_all add: Let_def case_prod_beta)


lemma validateForm_fieldErrors:
  assumes "distinct (map field_id (schema_fields schema))" "f \<in> set (schema_fields schema)"
  shows "fieldErrors (fst (validateForm rt vals schema)) (field_id f) =
           (if isValid (field_report rt vals f) then None
            else Some (errors (field_report rt vals f)))"
  using validateForm_loop_field[OF assms, of rt vals "\<lparr>formIsValid = True, fieldErrors = Map.empty\<rparr>"]
  by (simp add: validateForm_def case_prod_beta)

lemma validateForm_schema:
  "snd (validateForm rt vals schema) =
     schema\<lparr>schema_fields := map field_after_unshift (schema_fields schema)\<rparr>"
  by (simp add: validateForm_def case_prod_beta validateForm_loop_fields)

text \<open>A required text field without declared rules, and a schema around one field.\<close>

definition name_field :: form_field where
  "name_field =
     \<lparr>field_id = js ''name'', field_type = Text, label = js ''Name'', required = True,
      defaultValue = None, validation = None, options = None, derivedFrom = None\<rparr>"

definition name_schema :: "form_field \<Rightarrow> form_schema" where
  "name_schema field =
     \<lparr>schema_id = js ''form-1'', schema_name = js ''Example'', createdAt = JDate 0,
      schema_fields = [field]\<rparr>"

text \<open>
  Claim C8. \<^verbatim>\<open>validateNotEmpty\<close> returns the message exactly when the value is null
  or undefined, a string made of white space only, an empty array, or an object without
  keys; it returns null for every other value, in particular for the number 0 and for
  the boolean false.
\<close>

theorem notEmpty_fails_exactly:
  "validateNotEmpty v message =
     (if v = JNull \<or> v = JUndefined
         \<or> (\<exists>s. v = JStr s \<and> list_all is_whitespace s)
         \<or> v = JArr []
         \<or> (js_typeof v = TObject \<and> object_keys_length v = 0)
      then Some message else None)
   \<and> validateNotEmpty (JNum 0) message = None
   \<and> validateNotEmpty (JBool False) message = None"
  using notEmpty_cases[of v message] by simp

text \<open>
  Claim C9. \<^verbatim>\<open>validateForm\<close> is to leave the schema as it found it. For the required
  field \<open>name\<close> whose \<open>validation\<close> is the empty array, \<open>rules\<close> is that very
  array, and \<^verbatim>\<open>rules.unshift(requiredRule)\<close> writes the synthesized rule into the
  schema: after the call the field's \<open>validation\<close> holds one rule.
\<close>

theorem validateForm_writes_to_schema:
  "snd (validateForm rt Map.empty (name_schema (name_field\<lparr>validation := Some []\<rparr>))) =
     name_schema (name_field\<lparr>validation :=
       Some [\<lparr>rule_type = NotEmpty, rule_value = None,
              rule_message = js ''Name is required''\<rparr>]\<rparr>)
   \<and> snd (validateForm rt Map.empty (name_schema (name_field\<lparr>validation := Some []\<rparr>)))
       \<noteq> name_schema (name_field\<lparr>validation := Some []\<rparr>)"
  by (simp add: validateForm_schema name_schema_def name_field_def field_after_unshift_def
      has_notEmpty_rule_def declared_rules_def synthesized_rule_def js_def)

lemma validateField_loop_append:
  "validateField_loop rt v rules errs = errs @ validateField_loop rt v rules []"
proof (induction rules arbitrary: errs)
  case Nil
  then show ?case by simp
next
  case (Cons r rules)
  show ?case
    using Cons.IH[of errs] Cons.IH[of "errs @ [the (validateSingleRule rt v r)]"]
      Cons.IH[of "[the (validateSingleRule rt v r)]"]
    by (auto split: option.splits)
qed

lemma notEmpty_first_error:
  assumes "validateNotEmpty v (rule_message r) = Some (rule_message r)" "rule_type r = NotEmpty"
    "rule_message r \<noteq> []"
  shows "errors (validateField rt v (r # rules)) = rule_message r # validateField_loop rt v rules []
    \<and> \<not> isValid (validateField rt v (r # rules))"
  using assms validateField_loop_append[of rt v rules "[rule_message r]"]
  by (simp add: validateField_def Let_def del: validateNotEmpty.simps)

text \<open>
  Claim C10. \<^verbatim>\<open>validateNotEmpty\<close> returns the message for every object that is not
  an array and has no own enumerable key. A Date is such an object, and
  \<^verbatim>\<open>validateResult\<close> lets a Date through as a derived value; so a required field
  (without a declared notEmpty rule) that holds a Date makes the form invalid, with
  \<open>label + " is required"\<close> as the field's first message.
\<close>

theorem notEmpty_rejects_date:
  "(js_typeof v = TObject \<and> \<not> isArray v \<and> object_keys_length v = 0
      \<longrightarrow> validateNotEmpty v message = Some message)
   \<and> validateNotEmpty (JDate t) message = Some message
   \<and> validateResult (JDate t) = Inr (JDate t)
   \<and> (distinct (map field_id (schema_fields schema)) \<and> field \<in> set (schema_fields schema)
        \<and> required field \<and> \<not> has_notEmpty_rule (declared_rules field)
        \<and> vals (field_id field) = Some (JDate t)
      \<longrightarrow> \<not> formIsValid (fst (validateForm rt vals schema))
          \<and> (\<exists>others. fieldErrors (fst (validateForm rt vals schema)) (field_id field) =
                Some ((label field @ js '' is required'') # others)))"
proof -
  have a: "js_typeof v = TObject \<and> \<not> isArray v \<and> object_keys_length v = 0
      \<longrightarrow> validateNotEmpty v message = Some message"
    by (cases v) simp_all
  have b: "validateNotEmpty (JDate t) message = Some message" for message by simp
  have c: "validateResult (JDate t) = Inr (JDate t)" by simp
  have d: "\<not> formIsValid (fst (validateForm rt vals schema))
          \<and> (\<exists>others. fieldErrors (fst (validateForm rt vals schema)) (field_id field) =
                Some ((label field @ js '' is required'') # others))"
    if h: "distinct (map field_id (schema_fields schema))" "field \<in> set (schema_fields schema)"
      "required field" "\<not> has_notEmpty_rule (declared_rules field)"
      "vals (field_id field) = Some (JDate t)"
  proof -
    have e: "effective_rules field = synthesized_rule field # declared_rules field"
      using h(3,4) by (simp add: effective_rules_def)
    have m: "rule_message (synthesized_rule field) = label field @ js '' is required''"
      "rule_type (synthesized_rule field) = NotEmpty" "rule_message (synthesized_rule field) \<noteq> []"
      by (simp_all add: synthesized_rule_def js_def)
    have g: "js_get vals (field_id field) = JDate t" using h(5) by (simp add: js_get_def)
    have ne: "errors (validateField rt (JDate t) (synthesized_rule field # declared_rules field)) =
                rule_message (synthesized_rule field) # validateField_loop rt (JDate t) (declared_rules field) []
              \<and> \<not> isValid (validateField rt (JDate t) (synthesized_rule field # declared_rules field))"
      by (rule notEmpty_first_error[OF b m(2,3)])
    have r: "errors (field_report rt vals field) =
               (label field @ js '' is required'') # validateField_loop rt (JDate t) (declared_rules field) []"
      "\<not> isValid (field_report rt vals field)"
      using ne by (simp_all add: field_report_def e g m(1))
    have "\<not> formIsValid (fst (validateForm rt vals schema))"
      using validateForm_loop_valid[of rt vals "schema_fields schema"
          "\<lparr>formIsValid = True, fieldErrors = Map.empty\<rparr>"] r(2) h(2)
      by (auto simp: validateForm_def case_prod_beta list_all_iff)
    thus ?thesis using validateForm_fieldErrors[OF h(1,2), of rt vals] r by simp
  qed
  show ?thesis using a b c d by blast
qed

text \<open>The field \<open>name\<close> holding a Date.\<close>

theorem notEmpty_rejects_date_witness:
  "js_typeof (JDate 0) = TObject \<and> \<not> isArray (JDate 0) \<and> object_keys_length (JDate 0) = 0
   \<and> validateNotEmpty (JDate 0) (js ''Name is required'') = Some (js ''Name is required'')
   \<and> distinct (map field_id (schema_fields (name_schema name_field)))
   \<and> name_field \<in> set (schema_fields (name_schema name_field))
   \<and> required name_field \<and> \<not> has_notEmpty_rule (declared_rules name_field)
   \<and> (\<forall>rt. \<not> formIsValid (fst (validateForm rt [js ''name'' \<mapsto> JDate 0] (name_schema name_field)))
         \<and> (\<exists>others. fieldErrors (fst (validateForm rt [js ''name'' \<mapsto> JDate 0] (name_schema name_field)))
                 (js ''name'') = Some (js ''Name is required'' # others)))"
proof -
  have h: "distinct (map field_id (schema_fields (name_schema name_field)))"
    "name_field \<in> set (schema_fields (name_schema name_field))"
    "required name_field"
    "\<not> has_notEmpty_rule (declared_rules name_field)"
    by (simp_all add: name_schema_def name_field_def has_notEmpty_rule_def declared_rules_def)
  have l: "label name_field @ js '' is required'' = js ''Name is required''"
    "field_id name_field = js ''name''"
    by (simp_all add: name_field_def js_def)
  have v: "[js ''name'' \<mapsto> JDate 0] (field_id name_field) = Some (JDate 0)"
    by (simp add: l)
  show ?thesis
    using h v l
      notEmpty_rejects_date[where v = "JDate 0" and t = 0 and message = "js ''Name is required''"
        and schema = "name_schema name_field" and field = name_field
        and vals = "[js ''name'' \<mapsto> JDate 0]"]
    by simp
qed

subsection \<open>The store of arrays\<close>

text \<open>
  The rules that the array of a field holds, the list that \<^verbatim>\<open>validateField\<close> is
  given for the field, and the store after the field has been processed.
\<close>

definition rules_of :: "rule_store \<Rightarrow> nat field_object \<Rightarrow> validation_rule list" where
  "rules_of arrays field = (case validation field of None \<Rightarrow> [] | Some a \<Rightarrow> arrays ! a)"








declare validateForm_store_loop.simps(2) [simp del]







text \<open>
  Fields and a runtime for the examples. The runtime converts strings and numbers only;
  the rules of the examples do not call it.
\<close>

definition required_field :: "jsstring \<Rightarrow> jsstring \<Rightarrow> nat option \<Rightarrow> nat field_object" where
  "required_field i l a =
     \<lparr>field_id = i, field_type = Text, label = l, required = True,
      defaultValue = None, validation = a, options = None, derivedFrom = None\<rparr>"

definition reference_schema :: "nat field_object list \<Rightarrow> nat schema_object" where
  "reference_schema fs =
     \<lparr>schema_id = js ''form-1'', schema_name = js ''Example'', createdAt = JDate 0,
      schema_fields = fs\<rparr>"

definition example_runtime :: js_runtime where
  "example_runtime =
     \<lparr>String_of = (\<lambda>v. case v of JStr s \<Rightarrow> s | _ \<Rightarrow> []),
      Number_of = (\<lambda>v. case v of JNum n \<Rightarrow> Some n | _ \<Rightarrow> None)\<rparr>"

text \<open>
  Claim C7, as stated, fails: the required text field with the id \<open>constructor\<close> has no
  declared rules, and against the empty values object \<^verbatim>\<open>values[field.id]\<close> is the
  function that every object inherits under that name. The synthesized rule accepts
  it, and the form is valid.
\<close>

theorem required_field_reads_inherited_member:
  "required (required_field (js ''constructor'') (js ''Constructor'') None)
   \<and> rules_of [] (required_field (js ''constructor'') (js ''Constructor'') None) = []
   \<and> fst (validateForm_store example_runtime Map.empty
            (reference_schema [required_field (js ''constructor'') (js ''Constructor'') None]) []) =
       \<lparr>formIsValid = True, fieldErrors = Map.empty\<rparr>"
proof -
  have g: "js_get Map.empty (js ''constructor'') = JFun (js ''Object'')"
    by (simp add: js_get_def inherited_def object_prototype_def)
  show ?thesis
    by (simp add: validateForm_store_def reference_schema_def required_field_def rules_of_def
        validateForm_store_loop.simps(2) g validateField_def Let_def)
qed



section \<open>Properties of computeValue\<close>






text \<open>
  A sample engine for the examples: on an expression that is one identifier of the
  context it returns the value bound to it, as JavaScript does, and it raises the
  reference error on any other text.
\<close>

definition identifier_engine :: evaluator where
  "identifier_engine expression context =
     (case context expression of
        Some v \<Rightarrow> Returns v
      | None \<Rightarrow> ExpressionThrows (expression @ js '' is not defined''))"

text \<open>The object \<^verbatim>\<open>{ value: null, error: { type, message, originalError } }\<close>.\<close>

abbreviation failure :: "error_kind \<Rightarrow> jsstring \<Rightarrow> js_error option \<Rightarrow> compute_result" where
  "failure kind text cause \<equiv>
     \<lparr>result_value = JNull,
      result_error = Some \<lparr>error_type = kind, error_message = text,
                          error_fieldId = None, originalError = cause\<rparr>\<rparr>"





lemma computeValue_total: "\<exists>r. computeValue ev config vals = Inr r"
  by (simp add: computeValue_def computeValue_catch_def split: sum.splits)








lemma validateExpression_ok:
  "validateExpression e = Inr u \<longleftrightarrow>
     first_forbidden dangerousPatterns e = None \<and> length e \<le> 500 \<and> parenCount_loop e 0 = Inr 0"
  by (auto simp: validateExpression_def split: option.splits sum.splits if_splits)
















section \<open>Properties of detectCircularDependencies\<close>

text \<open>
  The graph that \<^verbatim>\<open>hasCycle\<close> and \<^verbatim>\<open>visit\<close> walk: from an id to the parents of the
  field that \<^verbatim>\<open>find\<close> returns for it, those parents kept that \<^verbatim>\<open>find\<close> resolves
  to a derived field.
\<close>

definition is_derived_id :: "form_field list \<Rightarrow> jsstring \<Rightarrow> bool" where
  "is_derived_id dfs p =
     (case find_field dfs p of None \<Rightarrow> False | Some pf \<Rightarrow> derivedFrom pf \<noteq> None)"

definition derived_parents :: "form_field list \<Rightarrow> jsstring \<Rightarrow> jsstring list" where
  "derived_parents dfs i =
     (case find_field dfs i of
        None \<Rightarrow> []
      | Some f \<Rightarrow>
          (case derivedFrom f of
             None \<Rightarrow> []
           | Some config \<Rightarrow> filter (is_derived_id dfs) (parentFields config)))"

definition lookup_graph :: "form_field list \<Rightarrow> (jsstring \<times> jsstring) set" where
  "lookup_graph dfs = {(i, p). p \<in> set (derived_parents dfs i)}"

lemma hasCycle_on_stack: "fid \<in> recursionStack st \<Longrightarrow> hasCycle dfs fid st = (True, st)"
  by (simp add: hasCycle.simps)

lemma hasCycle_seen:
  "fid \<notin> recursionStack st \<Longrightarrow> fid \<in> visited st \<Longrightarrow> hasCycle dfs fid st = (False, st)"
  by (simp add: hasCycle.simps)

lemma hasCycle_parents_filter:
  "hasCycle_parents dfs ps st = hasCycle_parents dfs (filter (is_derived_id dfs) ps) st"
proof (induction ps arbitrary: st)
  case Nil
  then show ?case by simp
next
  case (Cons p ps)
  show ?case
  proof (cases "is_derived_id dfs p")
    case True
    then obtain pf cfg where "find_field dfs p = Some pf" "derivedFrom pf = Some cfg"
      by (auto simp: is_derived_id_def split: option.splits)
    then show ?thesis using True Cons.IH by (simp add: case_prod_beta hasCycle_parents.simps(2))
  next
    case False
    then show ?thesis using Cons.IH[of st]
      by (auto simp: is_derived_id_def hasCycle_parents.simps(2) split: option.splits)
  qed
qed

lemma hasCycle_parents_derived:
  "is_derived_id dfs p \<Longrightarrow>
     hasCycle_parents dfs (p # ps) st =
       (let (found, st') = hasCycle dfs p st
        in if found then (True, st') else hasCycle_parents dfs ps st')"
  by (auto simp: is_derived_id_def hasCycle_parents.simps(2) split: option.splits)

lemma hasCycle_fresh:
  "fid \<notin> recursionStack st \<Longrightarrow> fid \<notin> visited st \<Longrightarrow>
     hasCycle dfs fid st =
       (let st1 = st\<lparr>visited := insert fid (visited st),
                     recursionStack := insert fid (recursionStack st)\<rparr>;
            (found, st2) = hasCycle_parents dfs (derived_parents dfs fid) st1
        in if found then (True, st2)
           else (False, st2\<lparr>recursionStack := recursionStack st2 - {fid}\<rparr>))"
proof -
  assume a: "fid \<notin> recursionStack st" "fid \<notin> visited st"
  show ?thesis
  proof (cases "find_field dfs fid")
    case None
    then show ?thesis using a by (simp add: hasCycle.simps[of dfs fid st] derived_parents_def)
  next
    case (Some f)
    show ?thesis
    proof (cases "derivedFrom f")
      case None
      then show ?thesis using a Some
        by (simp add: hasCycle.simps[of dfs fid st] derived_parents_def)
    next
      case (Some cfg)
      then show ?thesis using a \<open>find_field dfs fid = Some f\<close>
        by (simp add: hasCycle.simps[of dfs fid st] derived_parents_def
            hasCycle_parents_filter[of dfs "parentFields cfg"])
    qed
  qed
qed


text \<open>
  An induction rule for the two functions in terms of that graph: the loop over the
  parents runs over the derived parents only.
\<close>

lemma hasCycle_induct_derived [consumes 0, case_names hasCycle Nil Cons]:
  assumes step: "\<And>fid st.
      (fid \<notin> recursionStack st \<Longrightarrow> fid \<notin> visited st \<Longrightarrow>
         Q (derived_parents dfs fid)
           (st\<lparr>visited := insert fid (visited st),
                recursionStack := insert fid (recursionStack st)\<rparr>)) \<Longrightarrow> P fid st"
    and nil: "\<And>st. Q [] st"
    and cons: "\<And>p ps st. is_derived_id dfs p \<Longrightarrow> P p st \<Longrightarrow>
      (\<not> fst (hasCycle dfs p st) \<Longrightarrow> Q ps (snd (hasCycle dfs p st))) \<Longrightarrow> Q (p # ps) st"
  shows "P fid st" and "Q (filter (is_derived_id dfs) ps) st"
proof -
  have "d = dfs \<Longrightarrow> P fid st" and "d = dfs \<Longrightarrow> Q (filter (is_derived_id dfs) ps) st" for d
  proof (induction d fid st and d ps st rule: hasCycle_hasCycle_parents.induct)
    case (1 d fid st)
    note d = \<open>d = dfs\<close>
    show ?case
    proof (rule step)
      assume a: "fid \<notin> recursionStack st" "fid \<notin> visited st"
      let ?st1 = "st\<lparr>visited := insert fid (visited st),
                     recursionStack := insert fid (recursionStack st)\<rparr>"
      show "Q (derived_parents dfs fid) ?st1"
      proof (cases "find_field dfs fid")
        case None
        then show ?thesis using nil by (simp add: derived_parents_def)
      next
        case (Some f)
        show ?thesis
        proof (cases "derivedFrom f")
          case None
          then show ?thesis using nil Some by (simp add: derived_parents_def)
        next
          case (Some cfg)
          show ?thesis
            using "1.IH"[OF a refl \<open>find_field dfs fid = Some f\<close>[folded d] Some d]
              \<open>find_field dfs fid = Some f\<close> Some
            by (simp add: derived_parents_def)
        qed
      qed
    qed
  next
    case (2 d st)
    then show ?case using nil by simp
  next
    case (3 d p rest st)
    note d = \<open>d = dfs\<close>
    show ?case
    proof (cases "find_field dfs p")
      case None
      then show ?thesis using "3.IH"(1)[OF None[folded d] d] by (simp add: is_derived_id_def)
    next
      case (Some pf)
      note pf = Some
      show ?thesis
      proof (cases "derivedFrom pf")
        case None
        then show ?thesis using "3.IH"(2)[OF pf[folded d] None d] pf
          by (simp add: is_derived_id_def)
      next
        case (Some cfg)
        have dp: "is_derived_id dfs p" using pf Some by (simp add: is_derived_id_def)
        have "Q (p # filter (is_derived_id dfs) rest) st"
        proof (rule cons[OF dp])
          show "P p st" using "3.IH"(3)[OF pf[folded d] Some d] .
          assume nf: "\<not> fst (hasCycle dfs p st)"
          show "Q (filter (is_derived_id dfs) rest) (snd (hasCycle dfs p st))"
            using "3.IH"(4)[OF pf[folded d] Some refl prod.collapse nf[folded d] d]
            by (simp add: d)
        qed
        then show ?thesis using dp by simp
      qed
    qed
  qed
  thus "P fid st" and "Q (filter (is_derived_id dfs) ps) st" by simp_all
qed


lemma derived_parents_filter:
  "filter (is_derived_id dfs) (derived_parents dfs fid) = derived_parents dfs fid"
  by (simp add: derived_parents_def split: option.splits)

lemma hasCycle_frame_aux:
  "visited st \<subseteq> visited (snd (hasCycle dfs fid st)) \<and>
   (\<not> fst (hasCycle dfs fid st) \<longrightarrow>
      recursionStack (snd (hasCycle dfs fid st)) = recursionStack st \<and>
      fid \<in> visited (snd (hasCycle dfs fid st)) \<and> fid \<notin> recursionStack st)"
  "visited st \<subseteq> visited (snd (hasCycle_parents dfs (filter (is_derived_id dfs) ps) st)) \<and>
   (\<not> fst (hasCycle_parents dfs (filter (is_derived_id dfs) ps) st) \<longrightarrow>
      recursionStack (snd (hasCycle_parents dfs (filter (is_derived_id dfs) ps) st)) = recursionStack st \<and>
      set (filter (is_derived_id dfs) ps)
        \<subseteq> visited (snd (hasCycle_parents dfs (filter (is_derived_id dfs) ps) st)) - recursionStack st)"
proof (induction fid st and ps st rule: hasCycle_induct_derived[where dfs = dfs])
  case (hasCycle fid st)
  show ?case
  proof (cases "fid \<in> recursionStack st")
    case True
    then show ?thesis by (simp add: hasCycle_on_stack)
  next
    case ns: False
    show ?thesis
    proof (cases "fid \<in> visited st")
      case True
      then show ?thesis using ns by (simp add: hasCycle_seen)
    next
      case False
      show ?thesis using hasCycle[OF ns False] ns False
        by (auto simp: hasCycle_fresh[OF ns False] Let_def case_prod_beta)
    qed
  qed
next
  case (Nil st)
  then show ?case by simp
next
  case (Cons p ps st)
  show ?case
  proof (cases "fst (hasCycle dfs p st)")
    case True
    then show ?thesis using Cons(2)
      by (simp add: hasCycle_parents_derived[OF Cons(1)] case_prod_beta)
  next
    case False
    show ?thesis using Cons(2) Cons(3)[OF False] False
      by (auto simp: hasCycle_parents_derived[OF Cons(1)] case_prod_beta)
  qed
qed

lemma hasCycle_frame:
  assumes "hasCycle dfs fid st = (found, st')"
  shows "visited st \<subseteq> visited st'"
    and "\<not> found \<Longrightarrow> recursionStack st' = recursionStack st \<and> fid \<in> visited st' \<and> fid \<notin> recursionStack st"
  using hasCycle_frame_aux(1)[of st dfs fid] assms by auto

lemma hasCycle_parents_frame:
  assumes "hasCycle_parents dfs ps st = (found, st')" "list_all (is_derived_id dfs) ps"
  shows "visited st \<subseteq> visited st'"
    and "\<not> found \<Longrightarrow> recursionStack st' = recursionStack st \<and> set ps \<subseteq> visited st' - recursionStack st"
proof -
  have "filter (is_derived_id dfs) ps = ps" using assms(2) by (simp add: list_all_iff)
  thus "visited st \<subseteq> visited st'"
    and "\<not> found \<Longrightarrow> recursionStack st' = recursionStack st \<and> set ps \<subseteq> visited st' - recursionStack st"
    using hasCycle_frame_aux(2)[of st dfs ps] assms(1) by auto
qed


lemma lookup_graph_iff: "(i, p) \<in> lookup_graph dfs \<longleftrightarrow> p \<in> set (derived_parents dfs i)"
  by (simp add: lookup_graph_def)

lemma hasCycle_sound_aux:
  "(\<forall>s\<in>recursionStack st. (s, fid) \<in> (lookup_graph dfs)\<^sup>+) \<longrightarrow>
     fst (hasCycle dfs fid st) \<longrightarrow> \<not> acyclic (lookup_graph dfs)"
  "\<forall>c. (\<forall>s\<in>recursionStack st. (s, c) \<in> (lookup_graph dfs)\<^sup>*) \<longrightarrow>
       (\<forall>p\<in>set (filter (is_derived_id dfs) ps). (c, p) \<in> lookup_graph dfs) \<longrightarrow>
       fst (hasCycle_parents dfs (filter (is_derived_id dfs) ps) st) \<longrightarrow>
       \<not> acyclic (lookup_graph dfs)"
proof (induction fid st and ps st rule: hasCycle_induct_derived[where dfs = dfs])
  case (hasCycle fid st)
  let ?G = "lookup_graph dfs"
  show ?case
  proof (intro impI)
    assume pre: "\<forall>s\<in>recursionStack st. (s, fid) \<in> ?G\<^sup>+" and found: "fst (hasCycle dfs fid st)"
    show "\<not> acyclic ?G"
    proof (cases "fid \<in> recursionStack st")
      case True
      hence "(fid, fid) \<in> ?G\<^sup>+" using pre by blast
      thus ?thesis by (auto simp: acyclic_def)
    next
      case ns: False
      have nv: "fid \<notin> visited st" using found ns hasCycle_seen[of fid st dfs] by auto
      let ?st1 = "st\<lparr>visited := insert fid (visited st),
                     recursionStack := insert fid (recursionStack st)\<rparr>"
      have f: "fst (hasCycle_parents dfs (derived_parents dfs fid) ?st1)"
        using found by (simp add: hasCycle_fresh[OF ns nv] Let_def case_prod_beta split: if_splits)
      have a: "\<forall>s\<in>recursionStack ?st1. (s, fid) \<in> ?G\<^sup>*"
        using pre by (auto intro: trancl_into_rtrancl)
      have b: "\<forall>p\<in>set (derived_parents dfs fid). (fid, p) \<in> ?G"
        by (simp add: lookup_graph_iff)
      show ?thesis using hasCycle[OF ns nv] a b f by blast
    qed
  qed
next
  case (Nil st)
  then show ?case by simp
next
  case (Cons p ps st)
  let ?G = "lookup_graph dfs"
  show ?case
  proof (intro allI impI)
    fix c
    assume pre: "\<forall>s\<in>recursionStack st. (s, c) \<in> ?G\<^sup>*"
      and edges: "\<forall>q\<in>set (p # ps). (c, q) \<in> ?G"
      and found: "fst (hasCycle_parents dfs (p # ps) st)"
    have pp: "\<forall>s\<in>recursionStack st. (s, p) \<in> ?G\<^sup>+"
      using pre edges by (auto intro: rtrancl_into_trancl1)
    show "\<not> acyclic ?G"
    proof (cases "fst (hasCycle dfs p st)")
      case True
      then show ?thesis using Cons(2) pp by blast
    next
      case False
      obtain st' where r: "hasCycle dfs p st = (False, st')"
        using False by (cases "hasCycle dfs p st") auto
      have s: "recursionStack st' = recursionStack st" using hasCycle_frame(2)[OF r] by simp
      have f: "fst (hasCycle_parents dfs ps st')"
        using found r by (simp add: hasCycle_parents_derived[OF Cons(1)])
      show ?thesis using Cons(3)[OF False] r s pre edges f by auto
    qed
  qed
qed

text \<open>
  The ids that are visited and no longer on the recursion stack. While no cycle has been
  found, their successors are among them and none of them reaches itself.
\<close>

definition finished :: "cycle_state \<Rightarrow> jsstring set" where
  "finished st = visited st - recursionStack st"

definition cycle_free :: "form_field list \<Rightarrow> cycle_state \<Rightarrow> bool" where
  "cycle_free dfs st =
     (lookup_graph dfs `` finished st \<subseteq> finished st
      \<and> (\<forall>v\<in>finished st. (v, v) \<notin> (lookup_graph dfs)\<^sup>+))"

lemma closed_rtrancl:
  assumes "R `` F \<subseteq> F" "(x, y) \<in> R\<^sup>*" "x \<in> F"
  shows "y \<in> F"
  using assms(2,1,3) by (induction rule: rtrancl_induct) auto

lemma hasCycle_complete_aux:
  "cycle_free dfs st \<longrightarrow> \<not> fst (hasCycle dfs fid st) \<longrightarrow> cycle_free dfs (snd (hasCycle dfs fid st))"
  "cycle_free dfs st \<longrightarrow> \<not> fst (hasCycle_parents dfs (filter (is_derived_id dfs) ps) st) \<longrightarrow>
     cycle_free dfs (snd (hasCycle_parents dfs (filter (is_derived_id dfs) ps) st))"
proof (induction fid st and ps st rule: hasCycle_induct_derived[where dfs = dfs])
  case (hasCycle fid st)
  let ?G = "lookup_graph dfs"
  show ?case
  proof (intro impI)
    assume inv: "cycle_free dfs st" and nf: "\<not> fst (hasCycle dfs fid st)"
    have ns: "fid \<notin> recursionStack st" using nf by (auto simp: hasCycle_on_stack)
    show "cycle_free dfs (snd (hasCycle dfs fid st))"
    proof (cases "fid \<in> visited st")
      case True
      then show ?thesis using inv ns by (simp add: hasCycle_seen)
    next
      case nv: False
      let ?st1 = "st\<lparr>visited := insert fid (visited st),
                     recursionStack := insert fid (recursionStack st)\<rparr>"
      obtain found st2 where r: "hasCycle_parents dfs (derived_parents dfs fid) ?st1 = (found, st2)"
        by (cases "hasCycle_parents dfs (derived_parents dfs fid) ?st1")
      have nfound: "\<not> found" using nf r by (auto simp: hasCycle_fresh[OF ns nv] Let_def)
      have res: "snd (hasCycle dfs fid st) = st2\<lparr>recursionStack := recursionStack st2 - {fid}\<rparr>"
        using r nfound by (simp add: hasCycle_fresh[OF ns nv] Let_def)
      have "finished ?st1 = finished st" using nv by (auto simp: finished_def)
      hence inv1: "cycle_free dfs ?st1" using inv by (simp add: cycle_free_def)
      have inv2: "cycle_free dfs st2" using hasCycle[OF ns nv] inv1 r nfound by simp
      have all: "list_all (is_derived_id dfs) (derived_parents dfs fid)"
        using derived_parents_filter[of dfs fid] by (metis Ball_set filter_id_conv)
      note fr = hasCycle_parents_frame[OF r all]
      have stack2: "recursionStack st2 = insert fid (recursionStack st)" using fr(2) nfound by simp
      have vis2: "fid \<in> visited st2" using fr(1) by auto
      have par: "set (derived_parents dfs fid) \<subseteq> finished st2"
        using fr(2) nfound stack2 by (auto simp: finished_def)
      have F: "finished (st2\<lparr>recursionStack := recursionStack st2 - {fid}\<rparr>) = insert fid (finished st2)"
        using stack2 vis2 ns by (auto simp: finished_def)
      have nin: "fid \<notin> finished st2" using stack2 by (simp add: finished_def)
      have cl2: "?G `` finished st2 \<subseteq> finished st2" using inv2 by (simp add: cycle_free_def)
      have "?G `` insert fid (finished st2) \<subseteq> insert fid (finished st2)"
        using cl2 par by (auto simp: lookup_graph_iff)
      moreover have "(fid, fid) \<notin> ?G\<^sup>+"
      proof
        assume "(fid, fid) \<in> ?G\<^sup>+"
        then obtain p where p: "(fid, p) \<in> ?G" "(p, fid) \<in> ?G\<^sup>*"
          by (meson tranclD)
        have "p \<in> finished st2" using p(1) par by (auto simp: lookup_graph_iff)
        hence "fid \<in> finished st2" using closed_rtrancl[OF cl2 p(2)] by simp
        thus False using nin by simp
      qed
      ultimately show ?thesis using inv2 by (simp add: res F cycle_free_def)
    qed
  qed
next
  case (Nil st)
  then show ?case by simp
next
  case (Cons p ps st)
  show ?case
  proof (intro impI)
    assume inv: "cycle_free dfs st" and nf: "\<not> fst (hasCycle_parents dfs (p # ps) st)"
    have nfp: "\<not> fst (hasCycle dfs p st)"
      using nf by (auto simp: hasCycle_parents_derived[OF Cons(1)] case_prod_beta split: if_splits)
    have e: "hasCycle_parents dfs (p # ps) st = hasCycle_parents dfs ps (snd (hasCycle dfs p st))"
      using nfp by (simp add: hasCycle_parents_derived[OF Cons(1)] case_prod_beta)
    show "cycle_free dfs (snd (hasCycle_parents dfs (p # ps) st))"
      using Cons(2) Cons(3)[OF nfp] inv nfp nf by (simp add: e)
  qed
qed


lemma detect_loop_result: "detect_loop dfs fs st = Some e \<Longrightarrow> e = circularDependencyError"
  by (induction fs arbitrary: st) (auto simp: case_prod_beta split: if_splits)

lemma detect_loop_sound:
  "detect_loop dfs fs st \<noteq> None \<Longrightarrow> recursionStack st = {} \<Longrightarrow> \<not> acyclic (lookup_graph dfs)"
proof (induction fs arbitrary: st)
  case Nil
  then show ?case by simp
next
  case (Cons f fs)
  show ?case
  proof (cases "field_id f \<in> visited st")
    case True
    then show ?thesis using Cons by simp
  next
    case False
    obtain found st' where r: "hasCycle dfs (field_id f) st = (found, st')"
      by (cases "hasCycle dfs (field_id f) st")
    show ?thesis
    proof (cases found)
      case True
      then show ?thesis using hasCycle_sound_aux(1)[of st "field_id f" dfs] r Cons.prems(2) by simp
    next
      case nf: False
      have "recursionStack st' = {}" using hasCycle_frame(2)[OF r] nf Cons.prems(2) by simp
      moreover have "detect_loop dfs fs st' \<noteq> None" using Cons.prems(1) False r nf by simp
      ultimately show ?thesis using Cons.IH by blast
    qed
  qed
qed

lemma lookup_graph_domain: "(i, p) \<in> lookup_graph dfs \<Longrightarrow> i \<in> field_id ` set dfs"
proof -
  assume "(i, p) \<in> lookup_graph dfs"
  then obtain f where "find_field dfs i = Some f"
    by (cases "find_field dfs i") (auto simp: lookup_graph_iff derived_parents_def)
  thus ?thesis using find_field_Some[of dfs i f] by force
qed

lemma detect_loop_complete:
  "detect_loop dfs fs st = None \<Longrightarrow> recursionStack st = {} \<Longrightarrow> cycle_free dfs st \<Longrightarrow>
   field_id ` set dfs \<subseteq> visited st \<union> field_id ` set fs \<Longrightarrow> acyclic (lookup_graph dfs)"
proof (induction fs arbitrary: st)
  case Nil
  have "(v, v) \<notin> (lookup_graph dfs)\<^sup>+" for v
  proof
    assume c: "(v, v) \<in> (lookup_graph dfs)\<^sup>+"
    then obtain p where "(v, p) \<in> lookup_graph dfs" by (meson tranclD)
    hence "v \<in> finished st" using lookup_graph_domain Nil.prems(2,4) by (auto simp: finished_def)
    thus False using Nil.prems(3) c by (simp add: cycle_free_def)
  qed
  then show ?case by (simp add: acyclic_def)
next
  case (Cons f fs)
  show ?case
  proof (cases "field_id f \<in> visited st")
    case True
    have "field_id ` set dfs \<subseteq> visited st \<union> field_id ` set fs"
      using Cons.prems(4) True by auto
    then show ?thesis using Cons.IH[of st] Cons.prems True by simp
  next
    case False
    obtain found st' where r: "hasCycle dfs (field_id f) st = (found, st')"
      by (cases "hasCycle dfs (field_id f) st")
    have nf: "\<not> found" using Cons.prems(1) False r by (auto split: if_splits)
    have d: "detect_loop dfs fs st' = None" using Cons.prems(1) False r nf by simp
    note fr = hasCycle_frame[OF r]
    have s: "recursionStack st' = {}" using fr(2) nf Cons.prems(2) by simp
    have c: "cycle_free dfs st'"
      using hasCycle_complete_aux(1)[of dfs st "field_id f"] Cons.prems(3) r nf by simp
    have "field_id ` set dfs \<subseteq> visited st' \<union> field_id ` set fs"
      using Cons.prems(4) fr(1) fr(2) nf by auto
    then show ?thesis using Cons.IH[OF d s c] by simp
  qed
qed

lemma detectCircularDependencies_iff:
  "detectCircularDependencies dfs = None \<longleftrightarrow> acyclic (lookup_graph dfs)"
proof
  assume "detectCircularDependencies dfs = None"
  thus "acyclic (lookup_graph dfs)"
    using detect_loop_complete[of dfs dfs "\<lparr>visited = {}, recursionStack = {}\<rparr>"]
    by (simp add: detectCircularDependencies_def cycle_free_def finished_def)
next
  assume "acyclic (lookup_graph dfs)"
  thus "detectCircularDependencies dfs = None"
    using detect_loop_sound[of dfs dfs "\<lparr>visited = {}, recursionStack = {}\<rparr>"]
    unfolding detectCircularDependencies_def by fastforce
qed

lemma detectCircularDependencies_cyclic:
  "\<not> acyclic (lookup_graph dfs) \<Longrightarrow> detectCircularDependencies dfs = Some circularDependencyError"
  using detectCircularDependencies_iff[of dfs] detect_loop_result[of dfs dfs]
  by (cases "detectCircularDependencies dfs") (auto simp: detectCircularDependencies_def)


text \<open>
  The dependency relation of a schema: a derived field depends on each of its parent ids
  that is the id of a derived field of the schema (itself included).
\<close>

definition is_derived_field_id :: "form_schema \<Rightarrow> jsstring \<Rightarrow> bool" where
  "is_derived_field_id schema p =
     list_ex (\<lambda>g. field_id g = p \<and> derivedFrom g \<noteq> None) (schema_fields schema)"

definition dependency_edges :: "form_schema \<Rightarrow> (jsstring \<times> jsstring) list" where
  "dependency_edges schema =
     concat (map (\<lambda>f. case derivedFrom f of
                         None \<Rightarrow> []
                       | Some config \<Rightarrow>
                           map (\<lambda>p. (field_id f, p))
                             (filter (is_derived_field_id schema) (parentFields config)))
               (schema_fields schema))"

definition dependency :: "form_schema \<Rightarrow> (jsstring \<times> jsstring) set" where
  "dependency schema = set (dependency_edges schema)"

lemma dependency_iff:
  "(i, p) \<in> dependency schema \<longleftrightarrow>
     (\<exists>f config. f \<in> set (schema_fields schema) \<and> field_id f = i
        \<and> derivedFrom f = Some config \<and> p \<in> set (parentFields config)
        \<and> is_derived_field_id schema p)"
proof -
  let ?g = "\<lambda>f. case derivedFrom f of
                   None \<Rightarrow> []
                 | Some config \<Rightarrow>
                     map (\<lambda>p. (field_id f, p))
                       (filter (is_derived_field_id schema) (parentFields config))"
  have g: "(i, p) \<in> set (?g f) \<longleftrightarrow>
             (\<exists>config. field_id f = i \<and> derivedFrom f = Some config
                \<and> p \<in> set (parentFields config) \<and> is_derived_field_id schema p)" for f
    by (cases "derivedFrom f") auto
  have "(i, p) \<in> dependency schema \<longleftrightarrow> (\<exists>f\<in>set (schema_fields schema). (i, p) \<in> set (?g f))"
    by (simp add: dependency_def dependency_edges_def)
  thus ?thesis unfolding g by blast
qed

lemma find_field_distinct:
  "distinct (map field_id dfs) \<Longrightarrow> f \<in> set dfs \<Longrightarrow> find_field dfs (field_id f) = Some f"
  unfolding find_field_def by (induction dfs) (auto simp: rev_image_eqI)

lemma find_field_exists:
  "g \<in> set dfs \<Longrightarrow> \<exists>g'. find_field dfs (field_id g) = Some g'"
  unfolding find_field_def by (induction dfs) auto

lemma derived_fields_of_iff:
  "f \<in> set (derived_fields_of schema) \<longleftrightarrow> f \<in> set (schema_fields schema) \<and> derivedFrom f \<noteq> None"
  by (simp add: derived_fields_of_def)

lemma distinct_derived_fields:
  "distinct (map field_id (schema_fields schema)) \<Longrightarrow>
     distinct (map field_id (derived_fields_of schema))"
  by (simp add: derived_fields_of_def distinct_map_filter)

lemma is_derived_id_iff:
  "is_derived_id (derived_fields_of schema) p \<longleftrightarrow> is_derived_field_id schema p"
proof
  assume "is_derived_id (derived_fields_of schema) p"
  then obtain pf where "find_field (derived_fields_of schema) p = Some pf" "derivedFrom pf \<noteq> None"
    by (auto simp: is_derived_id_def split: option.splits)
  thus "is_derived_field_id schema p"
    using find_field_Some[of "derived_fields_of schema" p pf]
    by (auto simp: is_derived_field_id_def list_ex_iff derived_fields_of_iff)
next
  assume "is_derived_field_id schema p"
  then obtain g where g: "g \<in> set (derived_fields_of schema)" "field_id g = p"
    by (auto simp: is_derived_field_id_def list_ex_iff derived_fields_of_iff)
  then obtain g' where g': "find_field (derived_fields_of schema) p = Some g'"
    using find_field_exists by blast
  hence "derivedFrom g' \<noteq> None"
    using find_field_Some[OF g'] by (simp add: derived_fields_of_iff)
  thus "is_derived_id (derived_fields_of schema) p" using g' by (simp add: is_derived_id_def)
qed

lemma lookup_graph_dependency:
  assumes "distinct (map field_id (schema_fields schema))"
  shows "lookup_graph (derived_fields_of schema) = dependency schema"
proof (intro set_eqI iffI; clarify)
  fix i p
  assume "(i, p) \<in> lookup_graph (derived_fields_of schema)"
  hence m: "p \<in> set (derived_parents (derived_fields_of schema) i)"
    by (simp add: lookup_graph_iff)
  then obtain f where f1: "find_field (derived_fields_of schema) i = Some f"
    by (cases "find_field (derived_fields_of schema) i") (auto simp: derived_parents_def)
  then obtain cfg where f2: "derivedFrom f = Some cfg"
    using m by (cases "derivedFrom f") (auto simp: derived_parents_def)
  have f: "find_field (derived_fields_of schema) i = Some f"
    "derivedFrom f = Some cfg" "p \<in> set (parentFields cfg)"
    "is_derived_id (derived_fields_of schema) p"
    using m f1 f2 by (auto simp: derived_parents_def)
  thus "(i, p) \<in> dependency schema"
    using find_field_Some[OF f(1)] by (auto simp: dependency_iff is_derived_id_iff derived_fields_of_iff)
next
  fix i p
  assume "(i, p) \<in> dependency schema"
  then obtain f cfg where f: "f \<in> set (schema_fields schema)" "field_id f = i"
    "derivedFrom f = Some cfg" "p \<in> set (parentFields cfg)" "is_derived_field_id schema p"
    by (auto simp: dependency_iff)
  have "f \<in> set (derived_fields_of schema)" using f(1,3) by (simp add: derived_fields_of_iff)
  hence "find_field (derived_fields_of schema) i = Some f"
    using find_field_distinct[OF distinct_derived_fields[OF assms]] f(2) by blast
  thus "(i, p) \<in> lookup_graph (derived_fields_of schema)"
    using f(3,4,5) by (simp add: lookup_graph_iff derived_parents_def is_derived_id_iff)
qed

lemma fold_mark_all:
  "fold (\<lambda>field errs. errs(field_id field \<mapsto> e)) fs m =
     (\<lambda>k. if list_ex (\<lambda>f. field_id f = k) fs then Some e else m k)"
  by (induction fs arbitrary: m) (auto simp: fun_eq_iff)

text \<open>Fields and schemas for the examples.\<close>

definition derived_field :: "jsstring \<Rightarrow> jsstring list \<Rightarrow> jsstring \<Rightarrow> form_field" where
  "derived_field i parents expression =
     \<lparr>field_id = i, field_type = Number, label = i, required = False, defaultValue = None,
      validation = None, options = None,
      derivedFrom = Some \<lparr>parentFields = parents, computationLogic = JStr expression\<rparr>\<rparr>"

definition plain_field :: "jsstring \<Rightarrow> form_field" where
  "plain_field i =
     \<lparr>field_id = i, field_type = Number, label = i, required = False, defaultValue = None,
      validation = None, options = None, derivedFrom = None\<rparr>"

definition schema_of :: "form_field list \<Rightarrow> form_schema" where
  "schema_of fs =
     \<lparr>schema_id = js ''form-1'', schema_name = js ''Example'', createdAt = JDate 0,
      schema_fields = fs\<rparr>"

text \<open>
  Claim C2. When the dependency relation of the schema (among derived fields, a field
  naming itself included) has a cycle, \<^verbatim>\<open>updateDerivedFields\<close> returns the input
  values unchanged, and its error object holds the circular_dependency error for the id
  of every derived field of the schema, and nothing else. Field ids are unique within
  the schema.
\<close>

theorem cycle_marks_every_derived_field:
  assumes "distinct (map field_id (schema_fields schema))"
    and "\<not> acyclic (dependency schema)"
  shows "updateDerivedFields ev formValues schema =
           Inr \<lparr>updated_values = formValues,
                derived_errors =
                  (\<lambda>k. if list_ex (\<lambda>f. field_id f = k) (derived_fields_of schema)
                       then Some \<lparr>error_type = circular_dependency,
                                  error_message =
                                    js ''Circular dependency detected in derived fields'',
                                  error_fieldId = None, originalError = None\<rparr>
                       else None)\<rparr>"
proof -
  have "\<not> acyclic (lookup_graph (derived_fields_of schema))"
    using assms by (simp add: lookup_graph_dependency)
  hence "detectCircularDependencies (derived_fields_of schema) = Some circularDependencyError"
    by (rule detectCircularDependencies_cyclic)
  thus ?thesis
    by (simp add: updateDerivedFields_def fold_mark_all circularDependencyError_def)
qed

text \<open>The fields x (derived from y) and y (derived from x).\<close>

definition xy_cycle :: form_schema where
  "xy_cycle =
     schema_of [derived_field (js ''x'') [js ''y''] (js ''y''),
                derived_field (js ''y'') [js ''x''] (js ''x'')]"

theorem cycle_marks_every_derived_field_witness:
  "distinct (map field_id (schema_fields xy_cycle))
   \<and> \<not> acyclic (dependency xy_cycle)
   \<and> (case updateDerivedFields identifier_engine [js ''x'' \<mapsto> JNum 1, js ''y'' \<mapsto> JNum 2] xy_cycle of
        Inl e \<Rightarrow> False
      | Inr r \<Rightarrow>
          updated_values r = [js ''x'' \<mapsto> JNum 1, js ''y'' \<mapsto> JNum 2]
          \<and> map_option error_type (derived_errors r (js ''x'')) = Some circular_dependency
          \<and> map_option error_type (derived_errors r (js ''y'')) = Some circular_dependency)"
proof -
  have d: "distinct (map field_id (schema_fields xy_cycle))"
    by (simp add: xy_cycle_def schema_of_def derived_field_def js_def)
  have e: "dependency xy_cycle = {(js ''x'', js ''y''), (js ''y'', js ''x'')}"
    by (auto simp: dependency_def dependency_edges_def xy_cycle_def schema_of_def
        derived_field_def is_derived_field_id_def js_def)
  have "(js ''x'', js ''x'') \<in> (dependency xy_cycle)\<^sup>+"
    unfolding e by (rule trancl_into_trancl[of _ "js ''y''"]) auto
  hence c: "\<not> acyclic (dependency xy_cycle)" by (auto simp: acyclic_def)
  have f: "derived_fields_of xy_cycle = schema_fields xy_cycle"
    by (simp add: derived_fields_of_def xy_cycle_def schema_of_def derived_field_def)
  have g: "map field_id (schema_fields xy_cycle) = [js ''x'', js ''y'']"
    by (simp add: xy_cycle_def schema_of_def derived_field_def)
  have h: "list_ex (\<lambda>f. field_id f = k) (derived_fields_of xy_cycle) \<longleftrightarrow> k = js ''x'' \<or> k = js ''y''"
    for k
    using g by (auto simp: f list_ex_iff image_iff)
  show ?thesis
    using d c cycle_marks_every_derived_field[OF d c, of identifier_engine
        "[js ''x'' \<mapsto> JNum 1, js ''y'' \<mapsto> JNum 2]"]
    by (simp add: h)
qed

section \<open>Properties of sortFieldsByDependencies\<close>

text \<open>The derived parents that \<^verbatim>\<open>visit\<close> follows from a field object.\<close>

definition own_derived_parents :: "form_field list \<Rightarrow> form_field \<Rightarrow> jsstring list" where
  "own_derived_parents dfs f =
     (case derivedFrom f of
        None \<Rightarrow> []
      | Some config \<Rightarrow> filter (is_derived_id dfs) (parentFields config))"


lemma visit_on_temp: "field_id f \<in> temp st \<Longrightarrow> visit dfs f st = st"
  by (simp add: visit.simps)

lemma visit_seen: "field_id f \<in> visited_sort st \<Longrightarrow> visit dfs f st = st"
  by (simp add: visit.simps)

lemma visit_parents_filter:
  "visit_parents dfs ps st = visit_parents dfs (filter (is_derived_id dfs) ps) st"
proof (induction ps arbitrary: st)
  case Nil
  then show ?case by simp
next
  case (Cons p ps)
  show ?case
  proof (cases "is_derived_id dfs p")
    case True
    then obtain pf cfg where "find_field dfs p = Some pf" "derivedFrom pf = Some cfg"
      by (auto simp: is_derived_id_def split: option.splits)
    then show ?thesis using True Cons.IH by (simp add: visit_parents.simps(2))
  next
    case False
    then show ?thesis using Cons.IH[of st]
      by (auto simp: is_derived_id_def visit_parents.simps(2) split: option.splits)
  qed
qed

lemma visit_parents_derived:
  "find_field dfs p = Some pf \<Longrightarrow> derivedFrom pf \<noteq> None \<Longrightarrow>
     visit_parents dfs (p # ps) st = visit_parents dfs ps (visit dfs pf st)"
  by (auto simp: visit_parents.simps(2))

lemma visit_fresh:
  assumes "field_id f \<notin> temp st" "field_id f \<notin> visited_sort st"
  shows "visit dfs f st =
       (let st2 = visit_parents dfs (own_derived_parents dfs f)
                    (st\<lparr>temp := insert (field_id f) (temp st)\<rparr>)
        in st2\<lparr>temp := temp st2 - {field_id f},
               visited_sort := insert (field_id f) (visited_sort st2),
               sorted_fields := sorted_fields st2 @ [f]\<rparr>)"
proof (cases "derivedFrom f")
  case None
  then show ?thesis using assms by (simp add: visit.simps[of dfs f st] own_derived_parents_def)
next
  case (Some cfg)
  then show ?thesis using assms
    by (simp add: visit.simps[of dfs f st] own_derived_parents_def
        visit_parents_filter[of dfs "parentFields cfg"])
qed

lemma visit_induct_derived [consumes 0, case_names visit Nil Cons]:
  assumes step: "\<And>f st.
      (field_id f \<notin> temp st \<Longrightarrow> field_id f \<notin> visited_sort st \<Longrightarrow>
         Q (own_derived_parents dfs f) (st\<lparr>temp := insert (field_id f) (temp st)\<rparr>)) \<Longrightarrow> P f st"
    and nil: "\<And>st. Q [] st"
    and cons: "\<And>p pf ps st. find_field dfs p = Some pf \<Longrightarrow> derivedFrom pf \<noteq> None \<Longrightarrow>
      P pf st \<Longrightarrow> Q ps (visit dfs pf st) \<Longrightarrow> Q (p # ps) st"
  shows "P f st" and "Q (filter (is_derived_id dfs) ps) st"
proof -
  have "d = dfs \<Longrightarrow> P f st" and "d = dfs \<Longrightarrow> Q (filter (is_derived_id dfs) ps) st" for d
  proof (induction d f st and d ps st rule: visit_visit_parents.induct)
    case (1 d f st)
    note d = \<open>d = dfs\<close>
    show ?case
    proof (rule step)
      assume a: "field_id f \<notin> temp st" "field_id f \<notin> visited_sort st"
      show "Q (own_derived_parents dfs f) (st\<lparr>temp := insert (field_id f) (temp st)\<rparr>)"
      proof (cases "derivedFrom f")
        case None
        then show ?thesis using nil by (simp add: own_derived_parents_def)
      next
        case (Some cfg)
        show ?thesis using "1.IH"[OF a refl Some d] Some by (simp add: own_derived_parents_def)
      qed
    qed
  next
    case (2 d st)
    then show ?case using nil by simp
  next
    case (3 d p rest st)
    note d = \<open>d = dfs\<close>
    show ?case
    proof (cases "find_field dfs p")
      case None
      then show ?thesis using "3.IH"(1)[OF None[folded d] d] by (simp add: is_derived_id_def)
    next
      case (Some pf)
      note pf = Some
      show ?thesis
      proof (cases "derivedFrom pf")
        case None
        then show ?thesis using "3.IH"(2)[OF pf[folded d] None d] pf
          by (simp add: is_derived_id_def)
      next
        case (Some cfg)
        have dp: "is_derived_id dfs p" using pf Some by (simp add: is_derived_id_def)
        have "Q (p # filter (is_derived_id dfs) rest) st"
        proof (rule cons[OF pf])
          show "derivedFrom pf \<noteq> None" using Some by simp
          show "P pf st" using "3.IH"(3)[OF pf[folded d] Some d] .
          show "Q (filter (is_derived_id dfs) rest) (visit dfs pf st)"
            using "3.IH"(4)[OF pf[folded d] Some d] by (simp add: d)
        qed
        then show ?thesis using dp by simp
      qed
    qed
  qed
  thus "P f st" and "Q (filter (is_derived_id dfs) ps) st" by simp_all
qed









text \<open>
  The fields c (derived from b), b (derived from a) and a (plain), declared in this
  order, with stale values for b and c.
\<close>

definition abc_schema :: form_schema where
  "abc_schema =
     schema_of [derived_field (js ''c'') [js ''b''] (js ''b''),
                derived_field (js ''b'') [js ''a''] (js ''a''),
                plain_field (js ''a'')]"

definition abc_values :: value_map where
  "abc_values = [js ''a'' \<mapsto> JNum 2, js ''b'' \<mapsto> JNum 99, js ''c'' \<mapsto> JNum 0]"

section \<open>Properties of updateDerivedFields\<close>

lemma derive_loop_total: "\<exists>vals errs. derive_loop ev fs (uv, es) = Inr (vals, errs)"
proof (induction fs arbitrary: uv es)
  case Nil
  then show ?case by simp
next
  case (Cons f fs)
  show ?case
  proof (cases "derivedFrom f")
    case None
    then show ?thesis using Cons.IH by simp
  next
    case (Some cfg)
    obtain r where r: "computeValue ev cfg uv = Inr r" using computeValue_total by blast
    show ?thesis using Some r Cons.IH by (cases "result_error r") simp_all
  qed
qed


lemma derive_loop_frame:
  "derive_loop ev fs (uv, es) = Inr (uv', es') \<Longrightarrow> k \<notin> field_id ` set fs \<Longrightarrow>
     uv' k = uv k \<and> es' k = es k"
proof (induction fs arbitrary: uv es)
  case Nil
  then show ?case by simp
next
  case (Cons f fs)
  have k: "k \<noteq> field_id f" "k \<notin> field_id ` set fs" using Cons.prems(2) by auto
  show ?case
  proof (cases "derivedFrom f")
    case None
    then show ?thesis using Cons.IH[OF _ k(2)] Cons.prems(1) by simp
  next
    case (Some cfg)
    obtain r where r: "computeValue ev cfg uv = Inr r" using computeValue_total by blast
    show ?thesis
    proof (cases "result_error r")
      case None
      hence "derive_loop ev fs (js_set uv (field_id f) (result_value r), es) = Inr (uv', es')"
        using Cons.prems(1) Some r by simp
      from Cons.IH[OF this k(2)] show ?thesis using k(1) by (simp add: js_set_def)
    next
      case (Some err)
      hence "derive_loop ev fs (uv, es(field_id f \<mapsto> err\<lparr>error_fieldId := Some (field_id f)\<rparr>))
               = Inr (uv', es')"
        using Cons.prems(1) \<open>derivedFrom f = Some cfg\<close> r by simp
      from Cons.IH[OF this k(2)] show ?thesis using k(1) by simp
    qed
  qed
qed







text \<open>
  The schema c, b, a again, with \<^verbatim>\<open>(\<close> as the expression of b: the computation of b
  fails.
\<close>

definition stale_schema :: form_schema where
  "stale_schema =
     schema_of [derived_field (js ''c'') [js ''b''] (js ''b''),
                derived_field (js ''b'') [js ''a''] (js ''(''),
                plain_field (js ''a'')]"

text \<open>
  Claim C1, as stated, fails: in the acyclic schema c, b, a the computation of b reports
  an error and writes no value, so that c, computed after b, reads for its parent b the
  value 99 that the input held, and takes it.
\<close>

theorem failed_parent_leaves_stale_value:
  "distinct (map field_id (schema_fields stale_schema))
   \<and> acyclic (dependency stale_schema)
   \<and> abc_values (js ''b'') = Some (JNum 99)
   \<and> updateDerivedFields identifier_engine abc_values stale_schema =
       Inr \<lparr>updated_values = abc_values(js ''c'' \<mapsto> JNum 99),
            derived_errors =
              [js ''b'' \<mapsto>
                 \<lparr>error_type = evaluation_error,
                  error_message = js ''Unbalanced parentheses in expression'',
                  error_fieldId = Some (js ''b''), originalError = Some unbalanced\<rparr>]\<rparr>"
proof -
  have d: "distinct (map field_id (schema_fields stale_schema))"
    by (simp add: stale_schema_def schema_of_def derived_field_def plain_field_def js_def)
  have e: "dependency stale_schema = {(js ''c'', js ''b'')}"
    by (auto simp: dependency_def dependency_edges_def stale_schema_def schema_of_def
        derived_field_def plain_field_def is_derived_field_id_def js_def)
  have a: "acyclic (dependency stale_schema)"
    by (simp add: e acyclic_insert wf_acyclic js_def)
  have v: "abc_values (js ''b'') = Some (JNum 99)" by (simp add: abc_values_def js_def)
  have n: "detectCircularDependencies (derived_fields_of stale_schema) = None"
    using a lookup_graph_dependency[OF d] detectCircularDependencies_iff by simp
  have o: "sortFieldsByDependencies (derived_fields_of stale_schema) =
             [derived_field (js ''b'') [js ''a''] (js ''(''),
              derived_field (js ''c'') [js ''b''] (js ''b'')]"
    by code_simp
  have cb: "computeValue identifier_engine
              \<lparr>parentFields = [js ''a''], computationLogic = JStr (js ''('')\<rparr> abc_values =
            Inr (failure evaluation_error (js ''Unbalanced parentheses in expression'')
                  (Some unbalanced))"
    by code_simp
  have cc: "computeValue identifier_engine
              \<lparr>parentFields = [js ''b''], computationLogic = JStr (js ''b'')\<rparr> abc_values =
            Inr \<lparr>result_value = JNum 99, result_error = None\<rparr>"
    by code_simp
  have p: "js ''c'' \<noteq> js ''__proto__''" by (simp add: js_def)
  have u: "updateDerivedFields identifier_engine abc_values stale_schema =
       Inr \<lparr>updated_values = abc_values(js ''c'' \<mapsto> JNum 99),
            derived_errors =
              [js ''b'' \<mapsto>
                 \<lparr>error_type = evaluation_error,
                  error_message = js ''Unbalanced parentheses in expression'',
                  error_fieldId = Some (js ''b''), originalError = Some unbalanced\<rparr>]\<rparr>"
    using p by (simp add: updateDerivedFields_def n o derived_field_def cb cc js_set_def)
  show ?thesis using d a v u by blast
qed





definition inherited_parent_schema :: form_schema where
  "inherited_parent_schema =
     schema_of [derived_field (js ''d'') [js ''toString''] (js ''toString'')]"

text \<open>
  Claim C3, as stated, fails: \<open>toString\<close> is not a key of the values object that holds
  d only, yet the field d with the parent \<open>toString\<close> gets no missing_parent error. The
  test \<^verbatim>\<open>parentId in formValues\<close> finds the inherited function, the expression is
  evaluated, and its result, that function, is rejected by \<^verbatim>\<open>validateResult\<close>.
\<close>

theorem inherited_parent_counts_as_present:
  "[js ''d'' \<mapsto> JNum 5] (js ''toString'') = None
   \<and> updateDerivedFields identifier_engine [js ''d'' \<mapsto> JNum 5] inherited_parent_schema =
       Inr \<lparr>updated_values = [js ''d'' \<mapsto> JNum 5],
            derived_errors =
              [js ''d'' \<mapsto>
                 \<lparr>error_type = evaluation_error,
                  error_message =
                    js ''Expression evaluation error: Functions not allowed in derived field results'',
                  error_fieldId = Some (js ''d''),
                  originalError =
                    Some (Error (js ''Expression evaluation error: Functions not allowed in derived field results''))\<rparr>]\<rparr>"
proof -
  have k: "[js ''d'' \<mapsto> JNum 5] (js ''toString'') = None" by (simp add: js_def)
  have d: "distinct (map field_id (schema_fields inherited_parent_schema))"
    by (simp add: inherited_parent_schema_def schema_of_def)
  have e: "dependency inherited_parent_schema = {}"
    by (auto simp: dependency_def dependency_edges_def inherited_parent_schema_def schema_of_def
        derived_field_def is_derived_field_id_def js_def)
  have n: "detectCircularDependencies (derived_fields_of inherited_parent_schema) = None"
    using lookup_graph_dependency[OF d] detectCircularDependencies_iff
    by (simp add: e wf_acyclic)
  have o: "sortFieldsByDependencies (derived_fields_of inherited_parent_schema) =
             [derived_field (js ''d'') [js ''toString''] (js ''toString'')]"
    by code_simp
  have c: "computeValue identifier_engine
              \<lparr>parentFields = [js ''toString''], computationLogic = JStr (js ''toString'')\<rparr>
              [js ''d'' \<mapsto> JNum 5] =
            Inr (failure evaluation_error
                  (js ''Expression evaluation error: Functions not allowed in derived field results'')
                  (Some (Error (js ''Expression evaluation error: Functions not allowed in derived field results''))))"
    by code_simp
  have u: "updateDerivedFields identifier_engine [js ''d'' \<mapsto> JNum 5] inherited_parent_schema =
       Inr \<lparr>updated_values = [js ''d'' \<mapsto> JNum 5],
            derived_errors =
              [js ''d'' \<mapsto>
                 \<lparr>error_type = evaluation_error,
                  error_message =
                    js ''Expression evaluation error: Functions not allowed in derived field results'',
                  error_fieldId = Some (js ''d''),
                  originalError =
                    Some (Error (js ''Expression evaluation error: Functions not allowed in derived field results''))\<rparr>]\<rparr>"
    by (simp add: updateDerivedFields_def n o derived_field_def c)
  show ?thesis using k u by blast
qed



lemma derive_loop_store_eq:
  "a < length h \<Longrightarrow>
     derive_loop_store ev fs a (h, es) =
       (case derive_loop ev fs (h ! a, es) of
          Inl e \<Rightarrow> Inl e
        | Inr (v, es') \<Rightarrow> Inr (h[a := v], es'))"
proof (induction fs arbitrary: h es)
  case Nil
  then show ?case by simp
next
  case (Cons f fs)
  show ?case
  proof (cases "derivedFrom f")
    case None
    then show ?thesis using Cons by simp
  next
    case (Some cfg)
    note cfg = Some
    obtain r where r: "computeValue ev cfg (h ! a) = Inr r" using computeValue_total by blast
    show ?thesis
    proof (cases "result_error r")
      case None
      let ?w = "js_set (h ! a) (field_id f) (result_value r)"
      let ?h = "h[a := ?w]"
      have l: "a < length ?h" using Cons.prems by simp
      have ha: "?h ! a = ?w" using Cons.prems by simp
      have hu: "?h[a := v] = h[a := v]" for v by simp
      have "derive_loop_store ev (f # fs) a (h, es) = derive_loop_store ev fs a (?h, es)"
        using cfg r None by simp
      also have "\<dots> = (case derive_loop ev fs (?w, es) of
                 Inl e \<Rightarrow> Inl e
               | Inr (v, es') \<Rightarrow> Inr (h[a := v], es'))"
        using Cons.IH[OF l, of es] unfolding ha hu .
      also have "derive_loop ev fs (?w, es) = derive_loop ev (f # fs) (h ! a, es)"
        using cfg r None by simp
      finally show ?thesis .
    next
      case (Some err)
      let ?es = "es(field_id f \<mapsto> err\<lparr>error_fieldId := Some (field_id f)\<rparr>)"
      have "derive_loop_store ev (f # fs) a (h, es) = derive_loop_store ev fs a (h, ?es)"
        using cfg r Some by simp
      also have "\<dots> = (case derive_loop ev fs (h ! a, ?es) of
                 Inl e \<Rightarrow> Inl e
               | Inr (v, es') \<Rightarrow> Inr (h[a := v], es'))"
        by (rule Cons.IH[OF Cons.prems])
      also have "derive_loop ev fs (h ! a, ?es) = derive_loop ev (f # fs) (h ! a, es)"
        using cfg r Some by simp
      finally show ?thesis .
    qed
  qed
qed

lemma updateDerivedFields_store_eq:
  assumes "a < length h"
  shows "updateDerivedFields_store ev h a schema =
     (case updateDerivedFields ev (h ! a) schema of
        Inl e \<Rightarrow> Inl e
      | Inr r \<Rightarrow> Inr (h @ [updated_values r], length h, derived_errors r))"
proof -
  have "length h < length (h @ [h ! a])" by simp
  note e = derive_loop_store_eq[OF this]
  show ?thesis
    by (simp add: updateDerivedFields_store_def updateDerivedFields_def e Let_def
        split: option.splits sum.splits)
qed

lemma visit_within_aux:
  "f \<in> set dfs \<longrightarrow> set (sorted_fields st) \<subseteq> set dfs \<longrightarrow>
     set (sorted_fields (visit dfs f st)) \<subseteq> set dfs"
  "set (sorted_fields st) \<subseteq> set dfs \<longrightarrow>
     set (sorted_fields (visit_parents dfs (filter (is_derived_id dfs) ps) st)) \<subseteq> set dfs"
proof (induction f st and ps st rule: visit_induct_derived[where dfs = dfs])
  case (visit f st)
  show ?case
  proof (cases "field_id f \<in> temp st \<or> field_id f \<in> visited_sort st")
    case True
    then show ?thesis by (auto simp: visit_on_temp visit_seen)
  next
    case False
    hence n: "field_id f \<notin> temp st" "field_id f \<notin> visited_sort st" by auto
    show ?thesis using visit[OF n] by (simp add: visit_fresh[OF n] Let_def)
  qed
next
  case (Nil st)
  then show ?case by simp
next
  case (Cons p pf ps st)
  have "pf \<in> set dfs" using find_field_Some[OF Cons(1)] by simp
  then show ?case using Cons(3,4) by (simp add: visit_parents_derived[OF Cons(1,2)])
qed

lemma sort_loop_within:
  "set fs \<subseteq> set dfs \<Longrightarrow> set (sorted_fields st) \<subseteq> set dfs \<Longrightarrow>
     set (sorted_fields (sort_loop dfs fs st)) \<subseteq> set dfs"
proof (induction fs arbitrary: st)
  case Nil
  then show ?case by simp
next
  case (Cons f fs)
  have "set (sorted_fields (visit dfs f st)) \<subseteq> set dfs"
    using visit_within_aux(1)[of f dfs st] Cons.prems by simp
  then show ?case using Cons by simp
qed

lemma sortFieldsByDependencies_within: "set (sortFieldsByDependencies dfs) \<subseteq> set dfs"
  using sort_loop_within[of dfs dfs "\<lparr>sorted_fields = [], visited_sort = {}, temp = {}\<rparr>"]
  by (simp add: sortFieldsByDependencies_def)

lemma updateDerivedFields_frame:
  assumes "updateDerivedFields ev formValues schema = Inr r"
    and "\<not> list_ex (\<lambda>f. field_id f = k) (derived_fields_of schema)"
  shows "updated_values r k = formValues k"
proof (cases "detectCircularDependencies (derived_fields_of schema)")
  case (Some e)
  then show ?thesis using assms(1) by (auto simp: updateDerivedFields_def)
next
  case None
  obtain vals errs where l: "derive_loop ev (sortFieldsByDependencies (derived_fields_of schema))
      (formValues, Map.empty) = Inr (vals, errs)"
    using derive_loop_total by blast
  have "k \<notin> field_id ` set (sortFieldsByDependencies (derived_fields_of schema))"
    using assms(2) sortFieldsByDependencies_within[of "derived_fields_of schema"]
    by (auto simp: list_ex_iff)
  from derive_loop_frame[OF l this] show ?thesis
    using assms(1) None l by (auto simp: updateDerivedFields_def)
qed

lemma updateDerivedFields_total: "\<exists>r. updateDerivedFields ev formValues schema = Inr r"
proof (cases "detectCircularDependencies (derived_fields_of schema)")
  case (Some e)
  then show ?thesis by (simp add: updateDerivedFields_def)
next
  case None
  obtain vals errs where "derive_loop ev (sortFieldsByDependencies (derived_fields_of schema))
      (formValues, Map.empty) = Inr (vals, errs)"
    using derive_loop_total by blast
  then show ?thesis using None by (simp add: updateDerivedFields_def)
qed

text \<open>
  Claim C4. On the store of objects, \<^verbatim>\<open>updateDerivedFields\<close> returns a reference
  that the store did not hold before the call, and leaves every object that the store
  held, the caller's values object among them, as it was. The new object holds what
  \<^verbatim>\<open>updateDerivedFields\<close> computes from the caller's values, and it agrees with the
  caller's values on every key that is not the id of a derived field of the schema.
\<close>

theorem caller_values_untouched:
  assumes "formValues < length objects"
  shows "\<exists>objects' errs.
      updateDerivedFields_store ev objects formValues schema = Inr (objects', length objects, errs)
    \<and> length objects' = Suc (length objects)
    \<and> take (length objects) objects' = objects
    \<and> updateDerivedFields ev (objects ! formValues) schema =
         Inr \<lparr>updated_values = objects' ! length objects, derived_errors = errs\<rparr>
    \<and> (\<forall>k. \<not> list_ex (\<lambda>f. field_id f = k) (derived_fields_of schema) \<longrightarrow>
           (objects' ! length objects) k = (objects ! formValues) k)"
proof -
  obtain r where r: "updateDerivedFields ev (objects ! formValues) schema = Inr r"
    using updateDerivedFields_total by blast
  have s: "updateDerivedFields_store ev objects formValues schema =
             Inr (objects @ [updated_values r], length objects, derived_errors r)"
    using updateDerivedFields_store_eq[OF assms, of ev schema] r by simp
  have f: "\<forall>k. \<not> list_ex (\<lambda>f. field_id f = k) (derived_fields_of schema) \<longrightarrow>
           updated_values r k = (objects ! formValues) k"
    using updateDerivedFields_frame[OF r] by blast
  show ?thesis
    using s r f by (intro exI[of _ "objects @ [updated_values r]"] exI[of _ "derived_errors r"]) simp
qed

text \<open>A store that holds the values of the schema c, b, a, and the key a.\<close>

theorem caller_values_untouched_witness:
  "0 < length [abc_values]
   \<and> \<not> list_ex (\<lambda>f. field_id f = js ''a'') (derived_fields_of abc_schema)
   \<and> (\<exists>objects' errs.
        updateDerivedFields_store identifier_engine [abc_values] 0 abc_schema = Inr (objects', 1, errs)
      \<and> take 1 objects' = [abc_values]
      \<and> (objects' ! 1) (js ''a'') = abc_values (js ''a''))"
proof -
  have a: "0 < length [abc_values]" by simp
  have b: "\<not> list_ex (\<lambda>f. field_id f = js ''a'') (derived_fields_of abc_schema)"
    by (simp add: derived_fields_of_def abc_schema_def schema_of_def derived_field_def
        plain_field_def js_def)
  show ?thesis
    using a b caller_values_untouched[OF a, of identifier_engine abc_schema]
    by simp blast
qed

end
